theory Spec2Isabelle
  imports Main
begin

unbundle bit_operations_syntax

section \<open>Event vocabulary\<close>

text \<open>The class attributes of \<^verbatim>\<open>EventType\<close> and \<^verbatim>\<open>EventMask\<close>: plain Python integers.\<close>

abbreviation EventType_DOWN :: int where "EventType_DOWN \<equiv> 1"
abbreviation EventType_UP :: int where "EventType_UP \<equiv> 2"
abbreviation EventType_LEFT :: int where "EventType_LEFT \<equiv> 3"
abbreviation EventType_RIGHT :: int where "EventType_RIGHT \<equiv> 4"
abbreviation EventType_TOUCH :: int where "EventType_TOUCH \<equiv> 5"
abbreviation EventType_HOME :: int where "EventType_HOME \<equiv> 256"

abbreviation EventMask_TOUCH :: int where "EventMask_TOUCH \<equiv> 1"
abbreviation EventMask_SWIPE_LEFTRIGHT :: int where "EventMask_SWIPE_LEFTRIGHT \<equiv> 2"
abbreviation EventMask_SWIPE_UPDOWN :: int where "EventMask_SWIPE_UPDOWN \<equiv> 4"
abbreviation EventMask_BUTTON :: int where "EventMask_BUTTON \<equiv> 8"

section \<open>Errors, attributes, applications\<close>

text \<open>The exceptions the manager's own statements can raise.\<close>

datatype error = AttributeError | IndexError | TypeError

text \<open>
  \<^verbatim>\<open>__init__\<close> does not assign \<^verbatim>\<open>sleep_at\<close>, \<^verbatim>\<open>event_mask\<close>,
  \<^verbatim>\<open>tick_period_ms\<close> and \<^verbatim>\<open>tick_expiry\<close>; they come into being at the first
  \<^verbatim>\<open>switch\<close> (or \<^verbatim>\<open>keep_awake\<close>). Reading one before that raises AttributeError.
\<close>

datatype 'a attr = Unset | Val 'a

text \<open>A touch event is the tuple the touch driver hands out; \<^verbatim>\<open>event[0]\<close> is its kind.\<close>

type_synonym event = "int \<times> int \<times> int"

text \<open>
  What an application may ask of the manager from inside one of its methods:
  \<^verbatim>\<open>request_event(mask)\<close>, \<^verbatim>\<open>request_tick(period_ms)\<close> (\<^verbatim>\<open>None\<close> is the
  default argument) and an assignment to \<^verbatim>\<open>brightness\<close>.
\<close>

datatype svc = Request_event int | Request_tick "int option" | Set_brightness int

text \<open>
  The applications are not part of the manager's source. An application method is taken as
  a parameter: the service calls it makes, in order, and the truth value of what it returns.
\<close>

type_synonym reaction = "svc list \<times> bool"

text \<open>
  An application object. \<open>ident\<close> is the object's identity (Python compares the
  applications with the default \<^verbatim>\<open>==\<close>, and an application object counts as true in
  \<^verbatim>\<open>if self.app:\<close>). \<^verbatim>\<open>foreground\<close> is always called, every other method may be
  missing from \<^verbatim>\<open>dir(app)\<close>.
\<close>

record application =
  ident :: nat
  cap_foreground :: reaction
  cap_background :: "reaction option"
  cap_tick :: "(int \<Rightarrow> reaction) option"
  cap_press :: "(int \<Rightarrow> bool \<Rightarrow> reaction) option"
  cap_swipe :: "(event \<Rightarrow> reaction) option"
  cap_touch :: "(event \<Rightarrow> reaction) option"
  cap_sleep :: "reaction option"
  cap_wake :: "reaction option"

text \<open>The calls that leave the manager: to the watch's output devices and to the applications.\<close>

datatype call =
    Display_poweron | Display_poweroff | Display_mute bool
  | Backlight_set int | Drawable_reset | Vibrator_pulse | Gc_collect
  | Foreground nat | Background nat | Tick nat int | Press nat int bool
  | Swipe nat event | Touch nat event | Sleep nat | Wake nat

section \<open>The manager and the watch it drives\<close>

text \<open>
  The state is the attributes of \<^verbatim>\<open>Manager\<close>, from \<open>app\<close> to \<open>tick_expiry\<close> (with
  \<open>button_value\<close> the \<^verbatim>\<open>_value\<close> of its \<^verbatim>\<open>PinHandler\<close>), and the \<^verbatim>\<open>watch\<close>
  module, from \<open>rtc_update\<close> on.
\<close>

text \<open>
  Modelled from the spec: the \<^verbatim>\<open>watch\<close> drivers are not in the source. The real-time
  clock is what \<^verbatim>\<open>update()\<close> returns and what \<^verbatim>\<open>uptime\<close> and
  \<^verbatim>\<open>get_uptime_ms()\<close> read; the button is the value of its pin; the touch controller
  holds at most one pending event; the battery reports whether it charges; \<open>trace\<close> logs
  every call that leaves the manager.
\<close>

record manager =
  app :: "application option"
  applications :: "application list"
  blank_after :: int
  charging :: bool
  launcher :: application
  brightness :: int
  button_value :: bool
  sleep_at :: "int option attr"
  event_mask :: "int attr"
  tick_period_ms :: "int attr"
  tick_expiry :: "int option attr"
  rtc_update :: bool
  rtc_uptime :: int
  rtc_uptime_ms :: int
  button_pin :: bool
  touch_event :: "event option"
  battery_charging :: bool
  trace :: "call list"

text \<open>What the environment decides between two calls of the manager.\<close>

record readings =
  r_update :: bool
  r_uptime :: int
  r_uptime_ms :: int
  r_pin :: bool
  r_touch :: "event option"
  r_charging :: bool

definition sense :: "readings \<Rightarrow> manager \<Rightarrow> manager" where
  "sense r s = s\<lparr>rtc_update := r_update r, rtc_uptime := r_uptime r,
     rtc_uptime_ms := r_uptime_ms r, button_pin := r_pin r,
     touch_event := r_touch r, battery_charging := r_charging r\<rparr>"

section \<open>Sequencing, Python truth values, list access\<close>

definition bindE :: "error + 'a \<Rightarrow> ('a \<Rightarrow> error + 'b) \<Rightarrow> error + 'b" where
  "bindE m f = (case m of Inl e \<Rightarrow> Inl e | Inr x \<Rightarrow> f x)"

text \<open>\<^verbatim>\<open>if x:\<close> for an optional integer: \<^verbatim>\<open>None\<close> and \<^verbatim>\<open>0\<close> are false.\<close>

definition truthy :: "int option \<Rightarrow> bool" where
  "truthy v = (case v of None \<Rightarrow> False | Some t \<Rightarrow> t \<noteq> 0)"

text \<open>\<^verbatim>\<open>xs[i]\<close>: a negative index counts from the end, out of range raises IndexError.\<close>

definition getitem :: "'a list \<Rightarrow> int \<Rightarrow> error + 'a" where
  "getitem xs i =
     (if 0 \<le> i \<and> i < int (length xs) then Inr (xs ! nat i)
      else if i < 0 \<and> - int (length xs) \<le> i then Inr (xs ! nat (int (length xs) + i))
      else Inl IndexError)"

text \<open>\<^verbatim>\<open>app_list.index(self.app)\<close>: the first position holding the same object.\<close>

fun index_app :: "application \<Rightarrow> application list \<Rightarrow> nat option" where
  "index_app a [] = None"
| "index_app a (x # xs) =
     (if ident x = ident a then Some 0 else map_option Suc (index_app a xs))"

text \<open>\<^verbatim>\<open>self.app != other\<close>, with \<^verbatim>\<open>self.app\<close> possibly \<^verbatim>\<open>None\<close>.\<close>

definition differs :: "application option \<Rightarrow> application \<Rightarrow> bool" where
  "differs cur other = (case cur of None \<Rightarrow> True | Some c \<Rightarrow> ident c \<noteq> ident other)"

section \<open>PinHandler\<close>

definition get_event :: "manager \<Rightarrow> bool option \<times> manager" where
  "get_event s =
     (let new_value = button_pin s
      in if button_value s = new_value then (None, s)
         else (Some new_value, s\<lparr>button_value := new_value\<rparr>))"

text \<open>
  Modelled from the spec: \<^verbatim>\<open>watch.touch.get_event()\<close> hands out the pending event,
  if any, and leaves none pending.
\<close>

definition touch_get_event :: "manager \<Rightarrow> event option \<times> manager" where
  "touch_get_event s = (touch_event s, s\<lparr>touch_event := None\<rparr>)"

definition emit :: "call list \<Rightarrow> manager \<Rightarrow> manager" where
  "emit cs s = s\<lparr>trace := trace s @ cs\<rparr>"

section \<open>Services and application calls\<close>

definition register :: "application \<Rightarrow> manager \<Rightarrow> manager" where
  "register a s = s\<lparr>applications := applications s @ [a]\<rparr>"

definition set_brightness :: "int \<Rightarrow> manager \<Rightarrow> manager" where
  "set_brightness v s = emit [Backlight_set v] (s\<lparr>brightness := v\<rparr>)"

definition request_event :: "int \<Rightarrow> manager \<Rightarrow> error + manager" where
  "request_event m s =
     (case event_mask s of
        Unset \<Rightarrow> Inl AttributeError
      | Val e \<Rightarrow> Inr (s\<lparr>event_mask := Val (e OR m)\<rparr>))"

definition request_tick :: "int option \<Rightarrow> manager \<Rightarrow> error + manager" where
  "request_tick period_ms s =
     (case period_ms of
        None \<Rightarrow> Inl TypeError
      | Some p \<Rightarrow> Inr (s\<lparr>tick_period_ms := Val p,
                          tick_expiry := Val (Some (rtc_uptime_ms s + p))\<rparr>))"

definition keep_awake :: "manager \<Rightarrow> manager" where
  "keep_awake s = s\<lparr>sleep_at := Val (Some (rtc_uptime s + blank_after s))\<rparr>"

fun run_svc :: "svc \<Rightarrow> manager \<Rightarrow> error + manager" where
  "run_svc (Request_event m) s = request_event m s"
| "run_svc (Request_tick p) s = request_tick p s"
| "run_svc (Set_brightness v) s = Inr (set_brightness v s)"

fun run_svcs :: "svc list \<Rightarrow> manager \<Rightarrow> error + manager" where
  "run_svcs [] s = Inr s"
| "run_svcs (c # cs) s = bindE (run_svc c s) (run_svcs cs)"

text \<open>Calling a method that exists: the call is logged, then the method's requests run.\<close>

definition invoke :: "call \<Rightarrow> reaction \<Rightarrow> manager \<Rightarrow> error + manager" where
  "invoke c r s = run_svcs (fst r) (emit [c] s)"

text \<open>
  \<^verbatim>\<open>self.app.method(...)\<close> without a probe: AttributeError when there is no current
  application or it has no such method. The result carries the method's truth value.
\<close>

definition call_app ::
  "(application \<Rightarrow> reaction option) \<Rightarrow> (nat \<Rightarrow> call) \<Rightarrow> manager \<Rightarrow> error + (bool \<times> manager)" where
  "call_app method c s =
     (case app s of
        None \<Rightarrow> Inl AttributeError
      | Some a \<Rightarrow>
          (case method a of
             None \<Rightarrow> Inl AttributeError
           | Some r \<Rightarrow> bindE (invoke (c (ident a)) r s) (\<lambda>s'. Inr (snd r, s'))))"

section \<open>Manager.switch\<close>

definition leave_background :: "manager \<Rightarrow> error + manager" where
  "leave_background s =
     (case app s of
        Some cur \<Rightarrow>
          (case cap_background cur of
             None \<Rightarrow> Inr s
           | Some r \<Rightarrow> invoke (Background (ident cur)) r s)
      | None \<Rightarrow>
          Inr ((emit [Display_poweron, Display_mute True, Backlight_set (brightness s)] s)
                 \<lparr>sleep_at := Val (Some (rtc_uptime s + 90))\<rparr>))"

definition enter_foreground :: "application \<Rightarrow> manager \<Rightarrow> error + manager" where
  "enter_foreground a s =
     bindE (invoke (Foreground (ident a)) (cap_foreground a)
              (emit [Display_mute True, Drawable_reset]
                 (s\<lparr>event_mask := Val 0, tick_period_ms := Val 0,
                    tick_expiry := Val None, app := Some a\<rparr>)))
       (\<lambda>s'. Inr (emit [Display_mute False] s'))"

definition switch :: "application \<Rightarrow> manager \<Rightarrow> error + manager" where
  "switch a s = bindE (leave_background s) (enter_foreground a)"

section \<open>Manager.sleep and Manager.wake\<close>

definition sleep :: "manager \<Rightarrow> error + manager" where
  "sleep s0 =
     (let s = emit [Backlight_set 0] s0
      in bindE
           (case (case app s of None \<Rightarrow> None | Some a \<Rightarrow> cap_sleep a) of
              None \<Rightarrow> Inr (False, s)
            | Some r \<Rightarrow> call_app cap_sleep Sleep s)
           (\<lambda>(slept, s1).
              bindE
                (if slept then Inr s1
                 else bindE (getitem (applications s1) 0)
                        (\<lambda>d. bindE (switch d s1)
                           (\<lambda>s2. bindE (call_app cap_sleep Sleep s2) (\<lambda>(_, s3). Inr s3))))
                (\<lambda>s4. Inr ((emit [Display_poweroff] s4)
                              \<lparr>charging := battery_charging s4, sleep_at := Val None\<rparr>))))"

definition wake :: "manager \<Rightarrow> error + manager" where
  "wake s =
     bindE (call_app cap_wake Wake (emit [Display_poweron] s))
       (\<lambda>(_, s1).
          Inr (keep_awake (snd (touch_get_event (emit [Backlight_set (brightness s1)] s1)))))"

section \<open>Manager.navigate\<close>

definition navigate :: "int \<Rightarrow> manager \<Rightarrow> error + manager" where
  "navigate direction s =
     (let app_list = applications s
      in if direction = EventType_LEFT then
           (let i = (case (case app s of None \<Rightarrow> None | Some a \<Rightarrow> index_app a app_list) of
                       Some k \<Rightarrow> (let i = int k + 1 in if i \<ge> int (length app_list) then 0 else i)
                     | None \<Rightarrow> 0)
            in bindE (getitem app_list i) (\<lambda>a. switch a s))
         else if direction = EventType_RIGHT then
           (let i = (case (case app s of None \<Rightarrow> None | Some a \<Rightarrow> index_app a app_list) of
                       Some k \<Rightarrow> (let i = int k - 1 in if i < 0 then int (length app_list) - 1 else i)
                     | None \<Rightarrow> 0)
            in bindE (getitem app_list i) (\<lambda>a. switch a s))
         else if direction = EventType_UP then switch (launcher s) s
         else if direction = EventType_DOWN then
           bindE (getitem app_list 0)
             (\<lambda>d. if differs (app s) d then switch d s else Inr (emit [Vibrator_pulse] s))
         else if direction = EventType_HOME then
           bindE (getitem app_list 0)
             (\<lambda>d. if differs (app s) d then switch d s else sleep s)
         else Inr s)"

section \<open>Button and touch handling\<close>

definition handle_button :: "bool \<Rightarrow> manager \<Rightarrow> error + manager" where
  "handle_button state s0 =
     (let s = keep_awake s0
      in case event_mask s of
           Unset \<Rightarrow> Inl AttributeError
         | Val m \<Rightarrow>
             bindE
               (if m AND EventMask_BUTTON \<noteq> 0
                then call_app (\<lambda>a. map_option (\<lambda>f. f EventType_HOME state) (cap_press a))
                       (\<lambda>i. Press i EventType_HOME state) s
                else Inr (True, s))
               (\<lambda>(go_on, s1).
                  if \<not> go_on then Inr s1
                  else if state then navigate EventType_HOME s1
                  else Inr s1))"

definition handle_touch :: "event \<Rightarrow> manager \<Rightarrow> error + manager" where
  "handle_touch ev s0 =
     (let s = keep_awake s0
      in case event_mask s of
           Unset \<Rightarrow> Inl AttributeError
         | Val m \<Rightarrow>
             if fst ev < 5 then
               (let updown = (fst ev = 1 \<or> fst ev = 2)
                in if (m AND EventMask_SWIPE_UPDOWN \<noteq> 0 \<and> updown)
                      \<or> (m AND EventMask_SWIPE_LEFTRIGHT \<noteq> 0 \<and> \<not> updown)
                   then bindE (call_app (\<lambda>a. map_option (\<lambda>f. f ev) (cap_swipe a))
                                 (\<lambda>i. Swipe i ev) s)
                          (\<lambda>(go_on, s1). if go_on then navigate (fst ev) s1 else Inr s1)
                   else navigate (fst ev) s)
             else if fst ev = 5 \<and> m AND EventMask_TOUCH \<noteq> 0 then
               bindE (call_app (\<lambda>a. map_option (\<lambda>f. f ev) (cap_touch a)) (\<lambda>i. Touch i ev) s)
                 (\<lambda>(_, s1). Inr s1)
             else Inr s)"

section \<open>Manager._tick\<close>

text \<open>
  The catch-up loop of lines 274 to 277. With a period that is not positive the loop
  never ends, and the value is \<open>None\<close>.
\<close>

partial_function (option) catch_up :: "int \<Rightarrow> int \<Rightarrow> int \<Rightarrow> int \<Rightarrow> (int \<times> int) option" where
  "catch_up expiry period now ticks =
     (if expiry \<le> now then catch_up (expiry + period) period now (ticks + 1)
      else Some (expiry, ticks))"

text \<open>Lines 270 to 278: the tick of the foreground application.\<close>

definition deliver_tick :: "manager \<Rightarrow> (error + manager) option" where
  "deliver_tick s =
     (if \<not> rtc_update s then Some (Inr s)
      else case tick_expiry s of
             Unset \<Rightarrow> Some (Inl AttributeError)
           | Val expiry \<Rightarrow>
               if \<not> truthy expiry then Some (Inr s)
               else let now = rtc_uptime_ms s in
                 if the expiry \<le> now then
                   (case tick_period_ms s of
                      Unset \<Rightarrow> Some (Inl AttributeError)
                    | Val period \<Rightarrow>
                        (case catch_up (the expiry) period now 0 of
                           None \<Rightarrow> None
                         | Some (expiry', ticks) \<Rightarrow>
                             Some (bindE (call_app (\<lambda>a. map_option (\<lambda>f. f ticks) (cap_tick a))
                                            (\<lambda>i. Tick i ticks)
                                            (s\<lparr>tick_expiry := Val (Some expiry')\<rparr>))
                                     (\<lambda>(_, s1). Inr s1))))
                 else Some (Inr s))"

text \<open>Lines 280 to 282.\<close>

definition poll_button :: "manager \<Rightarrow> error + manager" where
  "poll_button s =
     (case get_event s of
        (None, s1) \<Rightarrow> Inr s1
      | (Some state, s1) \<Rightarrow> handle_button state s1)"

text \<open>Lines 284 to 286.\<close>

definition poll_touch :: "manager \<Rightarrow> error + manager" where
  "poll_touch s =
     (case touch_get_event s of
        (None, s1) \<Rightarrow> Inr s1
      | (Some ev, s1) \<Rightarrow> handle_touch ev s1)"

text \<open>Lines 288 and 289.\<close>

definition auto_sleep :: "manager \<Rightarrow> error + manager" where
  "auto_sleep s =
     (case sleep_at s of
        Unset \<Rightarrow> Inl AttributeError
      | Val t \<Rightarrow> if truthy t \<and> rtc_uptime s > the t then sleep s else Inr s)"

text \<open>Lines 280 to 291: what follows the tick in the awake branch.\<close>

definition poll_inputs :: "manager \<Rightarrow> error + manager" where
  "poll_inputs s =
     bindE (poll_button s)
       (\<lambda>s1. bindE (poll_touch s1)
          (\<lambda>s2. bindE (auto_sleep s2) (\<lambda>s3. Inr (emit [Gc_collect] s3))))"

text \<open>Lines 293 to 297: the asleep branch.\<close>

definition poll_asleep :: "manager \<Rightarrow> error + manager" where
  "poll_asleep s =
     (let charging' = battery_charging s
      in case get_event s of
           (state, s1) \<Rightarrow>
             if state = Some True \<or> charging s1 \<noteq> charging' then wake s1 else Inr s1)"

definition Manager_tick :: "manager \<Rightarrow> (error + manager) option" where
  "Manager_tick s =
     (case sleep_at s of
        Unset \<Rightarrow> Some (Inl AttributeError)
      | Val t \<Rightarrow>
          if truthy t then map_option (\<lambda>r. bindE r poll_inputs) (deliver_tick s)
          else Some (poll_asleep s))"

section \<open>Construction and start-up\<close>

text \<open>
  \<^verbatim>\<open>Manager.__init__\<close>, with the launcher and the three registered applications as
  parameters and the watch in the condition \<open>r\<close>.
\<close>

definition Manager_init ::
  "application \<Rightarrow> application \<Rightarrow> application \<Rightarrow> application \<Rightarrow> readings \<Rightarrow> manager" where
  "Manager_init l clock flashlight testapp r =
     register testapp (register flashlight (register clock
       \<lparr>app = None, applications = [], blank_after = 15, charging = True, launcher = l,
        brightness = 2, button_value = r_pin r, sleep_at = Unset, event_mask = Unset,
        tick_period_ms = Unset, tick_expiry = Unset,
        rtc_update = r_update r, rtc_uptime = r_uptime r, rtc_uptime_ms = r_uptime_ms r,
        button_pin = r_pin r, touch_event = r_touch r, battery_charging = r_charging r,
        trace = []\<rparr>))"

text \<open>The first statement of \<^verbatim>\<open>run\<close>.\<close>

definition run_start :: "manager \<Rightarrow> error + manager" where
  "run_start s =
     (case app s of
        None \<Rightarrow> bindE (getitem (applications s) 0) (\<lambda>a. switch a s)
      | Some _ \<Rightarrow> Inr s)"

section \<open>Observations used in the statements\<close>

text \<open>The part of the state that no method of the manager assigns after registration.\<close>

definition fixed :: "manager \<Rightarrow> manager \<Rightarrow> bool" where
  "fixed s s' \<longleftrightarrow>
     applications s' = applications s \<and> launcher s' = launcher s \<and>
     blank_after s' = blank_after s \<and> rtc_update s' = rtc_update s \<and>
     rtc_uptime s' = rtc_uptime s \<and> rtc_uptime_ms s' = rtc_uptime_ms s \<and>
     button_pin s' = button_pin s \<and> battery_charging s' = battery_charging s"

text \<open>
  What a sequence of requests amounts to: the backlight writes it causes, the event mask it
  builds from \<open>m\<close>, and the tick expiry it leaves when the clock reads \<open>now\<close>.
\<close>

fun svc_out :: "svc list \<Rightarrow> call list" where
  "svc_out [] = []"
| "svc_out (Set_brightness v # cs) = Backlight_set v # svc_out cs"
| "svc_out (_ # cs) = svc_out cs"

fun svc_mask :: "svc list \<Rightarrow> int \<Rightarrow> int" where
  "svc_mask [] m = m"
| "svc_mask (Request_event e # cs) m = svc_mask cs (m OR e)"
| "svc_mask (_ # cs) m = svc_mask cs m"

fun svc_expiry :: "svc list \<Rightarrow> int \<Rightarrow> int option \<Rightarrow> int option" where
  "svc_expiry [] now x = x"
| "svc_expiry (Request_tick (Some p) # cs) now x = svc_expiry cs now (Some (now + p))"
| "svc_expiry (_ # cs) now x = svc_expiry cs now x"

text \<open>The calls that \<^verbatim>\<open>switch\<close> makes, in order, when it runs to its end.\<close>

definition leave_out :: "manager \<Rightarrow> call list" where
  "leave_out s =
     (case app s of
        None \<Rightarrow> [Display_poweron, Display_mute True, Backlight_set (brightness s)]
      | Some cur \<Rightarrow>
          (case cap_background cur of
             None \<Rightarrow> []
           | Some r \<Rightarrow> Background (ident cur) # svc_out (fst r)))"

definition switch_out :: "application \<Rightarrow> manager \<Rightarrow> call list" where
  "switch_out a s =
     leave_out s @ [Display_mute True, Drawable_reset, Foreground (ident a)]
       @ svc_out (fst (cap_foreground a)) @ [Display_mute False]"

text \<open>\<^verbatim>\<open>navigate\<close> called \<open>n\<close> times in a row, and the identity of the current application.\<close>

fun repeat_navigate :: "nat \<Rightarrow> int \<Rightarrow> manager \<Rightarrow> error + manager" where
  "repeat_navigate 0 d s = Inr s"
| "repeat_navigate (Suc n) d s = bindE (navigate d s) (repeat_navigate n d)"

definition current :: "manager \<Rightarrow> nat option" where
  "current s = map_option ident (app s)"

section \<open>Example applications and states\<close>

text \<open>
  Four applications in the manner of the launcher, the clock, the flashlight and the test
  application, the manager as constructed, and two states after start-up.
\<close>

definition launcher_app :: application where
  "launcher_app =
     \<lparr>ident = 0, cap_foreground = ([Request_event 5], False), cap_background = Some ([], False),
      cap_tick = None, cap_press = None,
      cap_swipe = Some (\<lambda>ev. ([], False)), cap_touch = Some (\<lambda>ev. ([], False)),
      cap_sleep = None, cap_wake = None\<rparr>"

definition clock_app :: application where
  "clock_app =
     \<lparr>ident = 1, cap_foreground = ([Request_tick (Some 1000)], False), cap_background = None,
      cap_tick = Some (\<lambda>n. ([], False)), cap_press = None, cap_swipe = None, cap_touch = None,
      cap_sleep = Some ([], True), cap_wake = Some ([], False)\<rparr>"

definition flashlight_app :: application where
  "flashlight_app =
     \<lparr>ident = 2, cap_foreground = ([Set_brightness 3], False),
      cap_background = Some ([Set_brightness 2], False),
      cap_tick = None, cap_press = None, cap_swipe = None, cap_touch = None,
      cap_sleep = None, cap_wake = None\<rparr>"

definition test_app :: application where
  "test_app =
     \<lparr>ident = 3, cap_foreground = ([Request_event 9], False), cap_background = None,
      cap_tick = Some (\<lambda>n. ([], False)), cap_press = Some (\<lambda>k st. ([], False)),
      cap_swipe = None,
      cap_touch = Some (\<lambda>ev. ([], False)), cap_sleep = Some ([], True), cap_wake = None\<rparr>"

definition quiet :: readings where
  "quiet = \<lparr>r_update = False, r_uptime = 0, r_uptime_ms = 0, r_pin = False,
             r_touch = None, r_charging = True\<rparr>"

definition fresh :: manager where
  "fresh = Manager_init launcher_app clock_app flashlight_app test_app quiet"

definition on_clock :: manager where
  "on_clock = \<lparr>app = Some clock_app, applications = [clock_app, flashlight_app, test_app],
     blank_after = 15, charging = True, launcher = launcher_app, brightness = 2,
     button_value = False, sleep_at = Val (Some 90), event_mask = Val 0,
     tick_period_ms = Val 1000, tick_expiry = Val (Some 1000),
     rtc_update = False, rtc_uptime = 0, rtc_uptime_ms = 0, button_pin = False,
     touch_event = None, battery_charging = True,
     trace = [Display_poweron, Display_mute True, Backlight_set 2, Display_mute True,
              Drawable_reset, Foreground 1, Display_mute False]\<rparr>"

definition on_launcher :: manager where
  "on_launcher = \<lparr>app = Some launcher_app, applications = [clock_app, flashlight_app, test_app],
     blank_after = 15, charging = True, launcher = launcher_app, brightness = 2,
     button_value = False, sleep_at = Val (Some 90), event_mask = Val 7,
     tick_period_ms = Val 0, tick_expiry = Val None,
     rtc_update = False, rtc_uptime = 0, rtc_uptime_ms = 0, button_pin = False,
     touch_event = None, battery_charging = True,
     trace = []\<rparr>"

text \<open>
  Whether \<^verbatim>\<open>sleep\<close> stays on the current application (it has a \<^verbatim>\<open>sleep\<close> method
  that returns true), and the calls that asking it makes.
\<close>

definition sleeps_in_place :: "manager \<Rightarrow> bool" where
  "sleeps_in_place s =
     (case app s of
        None \<Rightarrow> False
      | Some a \<Rightarrow> (case cap_sleep a of None \<Rightarrow> False | Some r \<Rightarrow> snd r))"

definition own_sleep_out :: "manager \<Rightarrow> call list" where
  "own_sleep_out s =
     (case app s of
        None \<Rightarrow> []
      | Some a \<Rightarrow> (case cap_sleep a of None \<Rightarrow> [] | Some r \<Rightarrow> Sleep (ident a) # svc_out (fst r)))"


definition on_flashlight :: manager where
  "on_flashlight = \<lparr>app = Some flashlight_app, applications = [clock_app, flashlight_app, test_app],
     blank_after = 15, charging = True, launcher = launcher_app, brightness = 3,
     button_value = False, sleep_at = Val (Some 90), event_mask = Val 0,
     tick_period_ms = Val 0, tick_expiry = Val None,
     rtc_update = True, rtc_uptime = 100, rtc_uptime_ms = 100000, button_pin = False,
     touch_event = None, battery_charging = False,
     trace = []\<rparr>"

text \<open>
  The three dispatches of a poll step: 1 for a \<^verbatim>\<open>tick\<close> call, 2 for a \<^verbatim>\<open>press\<close> call,
  3 for a \<^verbatim>\<open>swipe\<close> or \<^verbatim>\<open>touch\<close> call, 0 for every other call.
\<close>

fun dispatch_phase :: "call \<Rightarrow> nat" where
  "dispatch_phase (Tick _ _) = 1"
| "dispatch_phase (Press _ _ _) = 2"
| "dispatch_phase (Swipe _ _) = 3"
| "dispatch_phase (Touch _ _) = 3"
| "dispatch_phase _ = 0"

text \<open>From \<open>s\<close> to \<open>s'\<close> the trace only grew, by calls whose phases lie in \<open>P\<close>.\<close>

definition emits :: "nat set \<Rightarrow> manager \<Rightarrow> manager \<Rightarrow> bool" where
  "emits P s s' \<longleftrightarrow> (\<exists>xs. trace s' = trace s @ xs \<and> dispatch_phase ` set xs \<subseteq> P)"

text \<open>
  The test application in front, awake, with a tick of period 1000 ms due since 1000 ms at
  3500 ms, the button just pressed and a touch pending.
\<close>

definition on_test :: manager where
  "on_test = \<lparr>app = Some test_app, applications = [clock_app, flashlight_app, test_app],
     blank_after = 15, charging = True, launcher = launcher_app, brightness = 2,
     button_value = False, sleep_at = Val (Some 90), event_mask = Val 9,
     tick_period_ms = Val 1000, tick_expiry = Val (Some 1000),
     rtc_update = True, rtc_uptime = 3, rtc_uptime_ms = 3500, button_pin = True,
     touch_event = Some (5, 10, 20), battery_charging = True,
     trace = []\<rparr>"






text \<open>
  The power state is the branch that \<^verbatim>\<open>_tick\<close> takes at line 269, \<^verbatim>\<open>if self.sleep_at:\<close>;
  there is none while the attribute does not exist.
\<close>

datatype power = AWAKE | ASLEEP

definition power_state :: "manager \<Rightarrow> power option" where
  "power_state s =
     (case sleep_at s of
        Unset \<Rightarrow> None
      | Val t \<Rightarrow> Some (if truthy t then AWAKE else ASLEEP))"

text \<open>
  The states the manager gets into: start-up as \<^verbatim>\<open>run\<close> does it, then any method of the
  manager that returns, any service request of an application, and any change of the
  watch's readings. The clock's uptime counts seconds since boot and is never negative.
\<close>

inductive reachable :: "manager \<Rightarrow> bool" where
  starts: "0 \<le> r_uptime r \<Longrightarrow> run_start (Manager_init l c f t r) = Inr s \<Longrightarrow> reachable s"
| senses: "reachable s \<Longrightarrow> 0 \<le> r_uptime r \<Longrightarrow> reachable (sense r s)"
| switches: "reachable s \<Longrightarrow> switch a s = Inr s' \<Longrightarrow> reachable s'"
| navigates: "reachable s \<Longrightarrow> navigate d s = Inr s' \<Longrightarrow> reachable s'"
| sleeps: "reachable s \<Longrightarrow> sleep s = Inr s' \<Longrightarrow> reachable s'"
| wakes: "reachable s \<Longrightarrow> wake s = Inr s' \<Longrightarrow> reachable s'"
| keeps_awake: "reachable s \<Longrightarrow> reachable (keep_awake s)"
| polls: "reachable s \<Longrightarrow> Manager_tick s = Some (Inr s') \<Longrightarrow> reachable s'"
| requests_event: "reachable s \<Longrightarrow> request_event m s = Inr s' \<Longrightarrow> reachable s'"
| requests_tick: "reachable s \<Longrightarrow> request_tick p s = Inr s' \<Longrightarrow> reachable s'"
| sets_brightness: "reachable s \<Longrightarrow> reachable (set_brightness v s)"

text \<open>What start-up establishes and every step keeps.\<close>

definition timer_ok :: "manager \<Rightarrow> bool" where
  "timer_ok s \<longleftrightarrow>
     0 < blank_after s \<and> 0 \<le> rtc_uptime s \<and>
     (sleep_at s = Val None \<or> (\<exists>t. sleep_at s = Val (Some t) \<and> 0 < t))"

section \<open>Basic facts\<close>

lemma bindE_Inl [simp]: "bindE (Inl e) f = Inl e"
  by (simp add: bindE_def)

lemma bindE_Inr [simp]: "bindE (Inr x) f = f x"
  by (simp add: bindE_def)

lemma bindE_eq_Inr: "bindE m f = Inr y \<longleftrightarrow> (\<exists>x. m = Inr x \<and> f x = Inr y)"
  by (cases m) simp_all

lemma fixed_refl [simp]: "fixed s s"
  by (simp add: fixed_def)

lemma fixed_trans: "fixed s s1 \<Longrightarrow> fixed s1 s2 \<Longrightarrow> fixed s s2"
  by (simp add: fixed_def)

lemma run_svc_frame:
  "run_svc c s = Inr s' \<Longrightarrow>
     fixed s s' \<and> app s' = app s \<and> sleep_at s' = sleep_at s \<and> charging s' = charging s \<and>
     button_value s' = button_value s \<and> touch_event s' = touch_event s"
  by (cases c)
     (auto simp: request_event_def request_tick_def set_brightness_def emit_def fixed_def
           split: attr.splits option.splits)

lemma run_svcs_frame:
  "run_svcs cs s = Inr s' \<Longrightarrow>
     fixed s s' \<and> app s' = app s \<and> sleep_at s' = sleep_at s \<and> charging s' = charging s \<and>
     button_value s' = button_value s \<and> touch_event s' = touch_event s"
proof (induction cs arbitrary: s)
  case Nil
  then show ?case by simp
next
  case (Cons c cs)
  from Cons.prems obtain s1 where 1: "run_svc c s = Inr s1" and 2: "run_svcs cs s1 = Inr s'"
    by (auto simp: bindE_eq_Inr)
  from run_svc_frame [OF 1] Cons.IH [OF 2] show ?case
    by (auto simp: fixed_def)
qed

lemma run_svcs_trace:
  "run_svcs cs s = Inr s' \<Longrightarrow> trace s' = trace s @ svc_out cs"
proof (induction cs arbitrary: s)
  case Nil
  then show ?case by simp
next
  case (Cons c cs)
  from Cons.prems obtain s1 where 1: "run_svc c s = Inr s1" and 2: "run_svcs cs s1 = Inr s'"
    by (auto simp: bindE_eq_Inr)
  from 1 have "trace s1 @ svc_out cs = trace s @ svc_out (c # cs)"
    by (cases c)
       (auto simp: request_event_def request_tick_def set_brightness_def emit_def
             split: attr.splits option.splits)
  with Cons.IH [OF 2] show ?case by simp
qed

lemma run_svcs_mask:
  "run_svcs cs s = Inr s' \<Longrightarrow> event_mask s = Val m \<Longrightarrow> event_mask s' = Val (svc_mask cs m)"
proof (induction cs arbitrary: s m)
  case Nil
  then show ?case by simp
next
  case (Cons c cs)
  from Cons.prems obtain s1 where 1: "run_svc c s = Inr s1" and 2: "run_svcs cs s1 = Inr s'"
    by (auto simp: bindE_eq_Inr)
  show ?case
  proof (cases c)
    case (Request_event e)
    with 1 Cons.prems(2) have "event_mask s1 = Val (m OR e)"
      by (auto simp: request_event_def)
    from Cons.IH [OF 2 this] Request_event show ?thesis by simp
  next
    case (Request_tick p)
    with 1 Cons.prems(2) have "event_mask s1 = Val m"
      by (auto simp: request_tick_def split: option.splits)
    from Cons.IH [OF 2 this] Request_tick show ?thesis by simp
  next
    case (Set_brightness v)
    with 1 Cons.prems(2) have "event_mask s1 = Val m"
      by (auto simp: set_brightness_def emit_def)
    from Cons.IH [OF 2 this] Set_brightness show ?thesis by simp
  qed
qed

lemma run_svcs_expiry:
  "run_svcs cs s = Inr s' \<Longrightarrow> tick_expiry s = Val x \<Longrightarrow>
     tick_expiry s' = Val (svc_expiry cs (rtc_uptime_ms s) x)"
proof (induction cs arbitrary: s x)
  case Nil
  then show ?case by simp
next
  case (Cons c cs)
  from Cons.prems obtain s1 where 1: "run_svc c s = Inr s1" and 2: "run_svcs cs s1 = Inr s'"
    by (auto simp: bindE_eq_Inr)
  from run_svc_frame [OF 1] have now: "rtc_uptime_ms s1 = rtc_uptime_ms s"
    by (simp add: fixed_def)
  show ?case
  proof (cases c)
    case (Request_event e)
    with 1 Cons.prems(2) have "tick_expiry s1 = Val x"
      by (auto simp: request_event_def split: attr.splits)
    from Cons.IH [OF 2 this] Request_event now show ?thesis by simp
  next
    case (Request_tick p)
    with 1 obtain q where p: "p = Some q"
      by (auto simp: request_tick_def split: option.splits)
    with 1 Request_tick have "tick_expiry s1 = Val (Some (rtc_uptime_ms s + q))"
      by (auto simp: request_tick_def)
    from Cons.IH [OF 2 this] Request_tick p now show ?thesis by simp
  next
    case (Set_brightness v)
    with 1 Cons.prems(2) have "tick_expiry s1 = Val x"
      by (auto simp: set_brightness_def emit_def)
    from Cons.IH [OF 2 this] Set_brightness now show ?thesis by simp
  qed
qed

section \<open>Facts about switch\<close>

lemma invoke_frame:
  "invoke c r s = Inr s' \<Longrightarrow>
     fixed s s' \<and> app s' = app s \<and> sleep_at s' = sleep_at s \<and> charging s' = charging s \<and>
     button_value s' = button_value s \<and> touch_event s' = touch_event s"
  unfolding invoke_def
  by (drule run_svcs_frame) (simp add: emit_def fixed_def)

lemma invoke_trace: "invoke c r s = Inr s' \<Longrightarrow> trace s' = trace s @ c # svc_out (fst r)"
  unfolding invoke_def
  by (drule run_svcs_trace) (simp add: emit_def)

lemma invoke_mask:
  "invoke c r s = Inr s' \<Longrightarrow> event_mask s = Val m \<Longrightarrow> event_mask s' = Val (svc_mask (fst r) m)"
  unfolding invoke_def
  by (erule run_svcs_mask) (simp add: emit_def)

lemma invoke_expiry:
  "invoke c r s = Inr s' \<Longrightarrow> tick_expiry s = Val x \<Longrightarrow>
     tick_expiry s' = Val (svc_expiry (fst r) (rtc_uptime_ms s) x)"
  unfolding invoke_def
  by (drule run_svcs_expiry [where x = x]) (simp_all add: emit_def)

lemma leave_background_frame:
  "leave_background s = Inr s' \<Longrightarrow>
     fixed s s' \<and> app s' = app s \<and> charging s' = charging s \<and>
     button_value s' = button_value s \<and> touch_event s' = touch_event s"
  unfolding leave_background_def
  by (auto split: option.splits dest!: invoke_frame simp: emit_def fixed_def)

lemma leave_background_trace:
  "leave_background s = Inr s' \<Longrightarrow> trace s' = trace s @ leave_out s"
  unfolding leave_background_def leave_out_def
  by (auto split: option.splits dest!: invoke_trace simp: emit_def)

lemma leave_background_sleep_at:
  "leave_background s = Inr s' \<Longrightarrow>
     sleep_at s' = (case app s of None \<Rightarrow> Val (Some (rtc_uptime s + 90)) | Some _ \<Rightarrow> sleep_at s)"
  unfolding leave_background_def
  by (auto split: option.splits dest!: invoke_frame simp: emit_def)

lemma enter_foreground_frame:
  "enter_foreground a s = Inr s' \<Longrightarrow>
     fixed s s' \<and> app s' = Some a \<and> sleep_at s' = sleep_at s \<and> charging s' = charging s \<and>
     button_value s' = button_value s \<and> touch_event s' = touch_event s"
  unfolding enter_foreground_def
  by (auto simp: bindE_eq_Inr emit_def fixed_def dest!: invoke_frame)

lemma enter_foreground_trace:
  "enter_foreground a s = Inr s' \<Longrightarrow>
     trace s' = trace s @ [Display_mute True, Drawable_reset, Foreground (ident a)]
                  @ svc_out (fst (cap_foreground a)) @ [Display_mute False]"
  unfolding enter_foreground_def
  by (auto simp: bindE_eq_Inr emit_def dest!: invoke_trace)

lemma enter_foreground_mask:
  "enter_foreground a s = Inr s' \<Longrightarrow> event_mask s' = Val (svc_mask (fst (cap_foreground a)) 0)"
  unfolding enter_foreground_def
  by (auto simp: bindE_eq_Inr emit_def dest!: invoke_mask [where m = 0])

lemma enter_foreground_expiry:
  "enter_foreground a s = Inr s' \<Longrightarrow>
     tick_expiry s' = Val (svc_expiry (fst (cap_foreground a)) (rtc_uptime_ms s) None)"
  unfolding enter_foreground_def
  by (auto simp: bindE_eq_Inr emit_def dest!: invoke_expiry [where x = None])

lemma switch_frame:
  "switch a s = Inr s' \<Longrightarrow>
     fixed s s' \<and> app s' = Some a \<and> charging s' = charging s \<and>
     button_value s' = button_value s \<and> touch_event s' = touch_event s"
  unfolding switch_def
  by (auto simp: bindE_eq_Inr fixed_def dest!: leave_background_frame enter_foreground_frame)

lemma switch_trace: "switch a s = Inr s' \<Longrightarrow> trace s' = trace s @ switch_out a s"
  unfolding switch_def switch_out_def
  by (auto simp: bindE_eq_Inr dest!: leave_background_trace enter_foreground_trace)

lemma switch_mask:
  "switch a s = Inr s' \<Longrightarrow> event_mask s' = Val (svc_mask (fst (cap_foreground a)) 0)"
  unfolding switch_def
  by (auto simp: bindE_eq_Inr dest!: enter_foreground_mask)

lemma switch_expiry:
  "switch a s = Inr s' \<Longrightarrow>
     tick_expiry s' = Val (svc_expiry (fst (cap_foreground a)) (rtc_uptime_ms s) None)"
  unfolding switch_def
  by (auto simp: bindE_eq_Inr fixed_def dest!: enter_foreground_expiry leave_background_frame)

lemma switch_sleep_at:
  "switch a s = Inr s' \<Longrightarrow>
     sleep_at s' = (case app s of None \<Rightarrow> Val (Some (rtc_uptime s + 90)) | Some _ \<Rightarrow> sleep_at s)"
  unfolding switch_def
  by (auto simp: bindE_eq_Inr dest!: enter_foreground_frame leave_background_sleep_at)

lemmas ex_defs = launcher_app_def clock_app_def flashlight_app_def test_app_def quiet_def
  fresh_def on_clock_def

lemmas op_defs = Manager_init_def register_def run_start_def getitem_def switch_def
  leave_background_def enter_foreground_def invoke_def emit_def request_event_def
  request_tick_def set_brightness_def

lemma run_start_fresh: "run_start fresh = Inr on_clock"
  by (simp add: ex_defs op_defs)

lemma svc_out_no_app_call [simp]: "Foreground i \<notin> set (svc_out cs)"
  by (induction cs rule: svc_out.induct) auto

lemma leave_out_no_foreground [simp]: "Foreground i \<notin> set (leave_out s)"
  by (auto simp: leave_out_def split: option.splits)

text \<open>
  Claim C4, as amended. When \<^verbatim>\<open>switch(target)\<close> returns, the target is the current
  application, the calls made by this switch contain exactly one \<^verbatim>\<open>foreground()\<close> of the
  target, and the event mask and the tick expiry are exactly what the target's
  \<^verbatim>\<open>foreground()\<close> requested, starting from mask 0 and no tick: nothing of the earlier
  configuration survives. They are 0 and unarmed when \<^verbatim>\<open>foreground()\<close> requests nothing.
\<close>

theorem switch_clean_slate:
  assumes "switch target s = Inr s'"
  shows "app s' = Some target
    \<and> count_list (drop (length (trace s)) (trace s')) (Foreground (ident target)) = 1
    \<and> event_mask s' = Val (svc_mask (fst (cap_foreground target)) 0)
    \<and> tick_expiry s' = Val (svc_expiry (fst (cap_foreground target)) (rtc_uptime_ms s) None)"
proof -
  have "count_list (switch_out target s) (Foreground (ident target)) = 1"
    by (simp add: switch_out_def count_list_0_iff)
  with switch_frame [OF assms] switch_trace [OF assms] switch_mask [OF assms]
    switch_expiry [OF assms]
  show ?thesis by simp
qed

theorem switch_clean_slate_witness:
  "\<exists>s'. switch flashlight_app on_clock = Inr s' \<and> app s' = Some flashlight_app
     \<and> count_list (drop (length (trace on_clock)) (trace s')) (Foreground 2) = 1
     \<and> event_mask s' = Val 0 \<and> tick_expiry s' = Val None"
proof -
  obtain s' where s': "switch flashlight_app on_clock = Inr s'"
    by (simp add: ex_defs op_defs)
  from switch_clean_slate [OF s'] s' show ?thesis
    by (simp add: flashlight_app_def)
qed

text \<open>
  The claim as stated fails: the launcher-like application subscribes to events in its
  \<^verbatim>\<open>foreground()\<close>, and the mask is 5 when \<^verbatim>\<open>switch\<close> returns.
\<close>

theorem switch_event_mask_counterexample:
  "map_sum id event_mask (switch launcher_app on_clock) = Inr (Val 5)"
  by (simp add: ex_defs op_defs)

section \<open>Ring navigation\<close>

lemma getitem_nth: "k < length xs \<Longrightarrow> getitem xs (int k) = Inr (xs ! k)"
  by (simp add: getitem_def)

lemma getitem_Inr: "getitem xs i = Inr x \<Longrightarrow> x \<in> set xs"
  by (auto simp: getitem_def split: if_splits)

lemma index_app_nth:
  "distinct (map ident xs) \<Longrightarrow> k < length xs \<Longrightarrow> index_app (xs ! k) xs = Some k"
proof (induction xs arbitrary: k)
  case Nil
  then show ?case by simp
next
  case (Cons x xs)
  show ?case
  proof (cases k)
    case 0
    then show ?thesis by simp
  next
    case (Suc j)
    with Cons.prems have j: "j < length xs" and "xs ! j \<in> set xs" by auto
    with Cons.prems have "ident x \<noteq> ident (xs ! j)" by auto
    with Cons.IH [of j] Cons.prems j Suc show ?thesis by simp
  qed
qed

lemma index_app_None: "ident a \<notin> ident ` set xs \<Longrightarrow> index_app a xs = None"
  by (induction xs) auto

lemma navigate_left_ring:
  assumes "distinct (map ident (applications s))" and "k < length (applications s)"
    and "app s = Some (applications s ! k)" and "navigate EventType_LEFT s = Inr s'"
  shows "app s' = Some (applications s ! (Suc k mod length (applications s)))
    \<and> applications s' = applications s"
proof -
  let ?xs = "applications s"
  let ?j = "Suc k mod length ?xs"
  have pos: "0 < length ?xs" using assms(2) by linarith
  have j: "?j < length ?xs" using pos by simp
  have idx: "index_app (?xs ! k) ?xs = Some k"
    using assms(1,2) by (rule index_app_nth)
  have "(if int k + 1 \<ge> int (length ?xs) then 0 else int k + 1) = int ?j"
    using assms(2) by (auto simp: mod_Suc)
  with assms(3,4) idx have "bindE (getitem ?xs (int ?j)) (\<lambda>a. switch a s) = Inr s'"
    by (simp add: navigate_def Let_def)
  with getitem_nth [OF j] have "switch (?xs ! ?j) s = Inr s'" by simp
  from switch_frame [OF this] show ?thesis by (simp add: fixed_def)
qed

lemma navigate_right_ring:
  assumes "distinct (map ident (applications s))" and "k < length (applications s)"
    and "app s = Some (applications s ! k)" and "navigate EventType_RIGHT s = Inr s'"
  shows "app s' = Some (applications s ! ((k + length (applications s) - 1) mod length (applications s)))
    \<and> applications s' = applications s"
proof -
  let ?xs = "applications s"
  let ?j = "(k + length ?xs - 1) mod length ?xs"
  have pos: "0 < length ?xs" using assms(2) by linarith
  have j: "?j < length ?xs" using pos by simp
  have idx: "index_app (?xs ! k) ?xs = Some k"
    using assms(1,2) by (rule index_app_nth)
  have "(if int k - 1 < 0 then int (length ?xs) - 1 else int k - 1) = int ?j"
  proof (cases k)
    case 0
    from pos have "int (length ?xs - 1) = int (length ?xs) - 1"
      by (simp add: of_nat_diff Suc_leI)
    with 0 pos show ?thesis by simp
  next
    case (Suc m)
    with assms(2) have "(Suc m + length ?xs - 1) mod length ?xs = m"
      by simp
    with Suc show ?thesis by simp
  qed
  with assms(3,4) idx have "bindE (getitem ?xs (int ?j)) (\<lambda>a. switch a s) = Inr s'"
    by (simp add: navigate_def Let_def)
  with getitem_nth [OF j] have "switch (?xs ! ?j) s = Inr s'" by simp
  from switch_frame [OF this] show ?thesis by (simp add: fixed_def)
qed

lemma repeat_navigate_left_ring:
  "distinct (map ident (applications s)) \<Longrightarrow> k < length (applications s) \<Longrightarrow>
   app s = Some (applications s ! k) \<Longrightarrow> repeat_navigate m EventType_LEFT s = Inr s' \<Longrightarrow>
   app s' = Some (applications s ! ((k + m) mod length (applications s)))
     \<and> applications s' = applications s"
proof (induction m arbitrary: s k)
  case 0
  then show ?case by simp
next
  case (Suc m)
  from Suc.prems(4) obtain s1 where 1: "navigate EventType_LEFT s = Inr s1"
    and 2: "repeat_navigate m EventType_LEFT s1 = Inr s'"
    by (auto simp: bindE_eq_Inr)
  let ?n = "length (applications s)"
  from navigate_left_ring [OF Suc.prems(1,2,3) 1]
  have a1: "app s1 = Some (applications s1 ! (Suc k mod ?n))" and xs: "applications s1 = applications s"
    by simp_all
  have "0 < ?n" using Suc.prems(2) by linarith
  then have "Suc k mod ?n < length (applications s1)" using xs by simp
  from Suc.IH [OF _ this a1 2] Suc.prems(1) xs
  have "app s' = Some (applications s ! ((Suc k mod ?n + m) mod ?n))"
    and "applications s' = applications s" by simp_all
  moreover have "(Suc k mod ?n + m) mod ?n = (k + Suc m) mod ?n"
    by (simp add: mod_add_left_eq)
  ultimately show ?case by simp
qed

text \<open>
  Claim C7, as amended. When the registered applications are pairwise distinct objects and
  the current application is one of them, \<^verbatim>\<open>navigate(LEFT)\<close> repeated
  \<^verbatim>\<open>len(applications)\<close> times, every call returning, ends on the application it
  started from.
\<close>

theorem navigate_left_ring_closure:
  assumes "distinct (map ident (applications s))"
    and "app s = Some a" and "a \<in> set (applications s)"
    and "repeat_navigate (length (applications s)) EventType_LEFT s = Inr s'"
  shows "app s' = Some a"
proof -
  from assms(3) obtain k where k: "k < length (applications s)" and a: "applications s ! k = a"
    by (auto simp: in_set_conv_nth)
  from repeat_navigate_left_ring [OF assms(1) k _ assms(4)] assms(2) a k
  show ?thesis by simp
qed

text \<open>
  Claim C8, as amended. When the registered applications are pairwise distinct objects and
  the current application is one of them, \<^verbatim>\<open>navigate(LEFT)\<close> followed by
  \<^verbatim>\<open>navigate(RIGHT)\<close> ends on the application it started from.
\<close>

theorem navigate_left_right_identity:
  assumes "distinct (map ident (applications s))"
    and "app s = Some a" and "a \<in> set (applications s)"
    and "bindE (navigate EventType_LEFT s) (navigate EventType_RIGHT) = Inr s'"
  shows "app s' = Some a"
proof -
  let ?n = "length (applications s)"
  from assms(3) obtain k where k: "k < ?n" and a: "applications s ! k = a"
    by (auto simp: in_set_conv_nth)
  from assms(4) obtain s1 where 1: "navigate EventType_LEFT s = Inr s1"
    and 2: "navigate EventType_RIGHT s1 = Inr s'"
    by (auto simp: bindE_eq_Inr)
  from navigate_left_ring [OF assms(1) k _ 1] assms(2) a
  have a1: "app s1 = Some (applications s1 ! (Suc k mod ?n))" and xs: "applications s1 = applications s"
    by simp_all
  have "0 < ?n" using k by linarith
  then have lt: "Suc k mod ?n < length (applications s1)" using xs by simp
  from navigate_right_ring [OF _ lt a1 2] assms(1) xs
  have "app s' = Some (applications s ! ((Suc k mod ?n + ?n - 1) mod ?n))" by simp
  moreover have "(Suc k mod ?n + ?n - 1) mod ?n = k"
  proof (cases "Suc k = ?n")
    case True
    then show ?thesis using k by simp
  next
    case False
    with k have "Suc k mod ?n = Suc k" by simp
    then show ?thesis using k by simp
  qed
  ultimately show ?thesis using a by simp
qed

lemmas nav_defs = navigate_def repeat_navigate.simps index_app.simps differs_def current_def
  on_launcher_def

text \<open>
  Started from the launcher, which is not on the ring, three steps to the left over a ring
  of three end on the last application of the ring, not on the launcher.
\<close>

theorem navigate_left_ring_closure_counterexample:
  "current on_launcher = Some 0 \<and>
   map_sum id current
     (repeat_navigate (length (applications on_launcher)) EventType_LEFT on_launcher)
   = Inr (Some 3)"
  by (simp add: ex_defs op_defs nav_defs numeral_3_eq_3)

text \<open>
  Started from the launcher, left goes to ring index 0 and right wraps to the last
  application of the ring.
\<close>

theorem navigate_left_right_counterexample:
  "current on_launcher = Some 0 \<and>
   map_sum id current
     (bindE (navigate EventType_LEFT on_launcher) (navigate EventType_RIGHT)) = Inr (Some 3)"
  by (simp add: ex_defs op_defs nav_defs)

theorem navigate_left_ring_closure_witness:
  "distinct (map ident (applications on_clock)) \<and> app on_clock = Some clock_app
   \<and> clock_app \<in> set (applications on_clock)
   \<and> (\<exists>s'. repeat_navigate (length (applications on_clock)) EventType_LEFT on_clock = Inr s'
         \<and> app s' = Some clock_app)"
proof -
  have d: "distinct (map ident (applications on_clock))"
    and a: "app on_clock = Some clock_app" and m: "clock_app \<in> set (applications on_clock)"
    by (simp_all add: ex_defs)
  obtain s' where s': "repeat_navigate (length (applications on_clock)) EventType_LEFT on_clock = Inr s'"
    by (simp add: ex_defs op_defs nav_defs numeral_3_eq_3)
  from navigate_left_ring_closure [OF d a m s'] d a m s' show ?thesis by blast
qed

theorem navigate_left_right_identity_witness:
  "distinct (map ident (applications on_clock)) \<and> app on_clock = Some clock_app
   \<and> clock_app \<in> set (applications on_clock)
   \<and> (\<exists>s'. bindE (navigate EventType_LEFT on_clock) (navigate EventType_RIGHT) = Inr s'
         \<and> app s' = Some clock_app)"
proof -
  have d: "distinct (map ident (applications on_clock))"
    and a: "app on_clock = Some clock_app" and m: "clock_app \<in> set (applications on_clock)"
    by (simp_all add: ex_defs)
  obtain s' where s': "bindE (navigate EventType_LEFT on_clock) (navigate EventType_RIGHT) = Inr s'"
    by (simp add: ex_defs op_defs nav_defs)
  from navigate_left_right_identity [OF d a m s'] d a m s' show ?thesis by blast
qed

section \<open>Switching to the current application, sleep\<close>

lemma call_app_Inr:
  "call_app method c s = Inr (b, s') \<Longrightarrow>
     \<exists>a r. app s = Some a \<and> method a = Some r \<and> b = snd r \<and> invoke (c (ident a)) r s = Inr s'"
  by (auto simp: call_app_def bindE_eq_Inr split: option.splits)

lemma switch_out_cong:
  "app s1 = app s \<Longrightarrow> (app s = None \<longrightarrow> brightness s1 = brightness s) \<Longrightarrow>
     switch_out d s1 = switch_out d s"
  by (auto simp: switch_out_def leave_out_def split: option.splits)

text \<open>
  Claim C10. \<^verbatim>\<open>switch(app)\<close> with \<^verbatim>\<open>app\<close> already the current application has no
  guard: when it returns it has called the application's \<^verbatim>\<open>background()\<close> (if there is
  one), then \<^verbatim>\<open>foreground()\<close> again, and the event mask and tick expiry are those that
  \<^verbatim>\<open>foreground()\<close> requests from a cleared configuration, whatever they were before.
  \<^verbatim>\<open>navigate(UP)\<close> with the launcher in front is this very switch.
\<close>

theorem switch_to_current_app:
  assumes "app s = Some a" and "switch a s = Inr s'"
  shows "trace s' = trace s
           @ (case cap_background a of None \<Rightarrow> [] | Some r \<Rightarrow> Background (ident a) # svc_out (fst r))
           @ [Display_mute True, Drawable_reset, Foreground (ident a)]
           @ svc_out (fst (cap_foreground a)) @ [Display_mute False]
    \<and> event_mask s' = Val (svc_mask (fst (cap_foreground a)) 0)
    \<and> tick_expiry s' = Val (svc_expiry (fst (cap_foreground a)) (rtc_uptime_ms s) None)
    \<and> (launcher s = a \<longrightarrow> navigate EventType_UP s = Inr s')"
proof -
  from assms(1) have "switch_out a s =
      (case cap_background a of None \<Rightarrow> [] | Some r \<Rightarrow> Background (ident a) # svc_out (fst r))
      @ [Display_mute True, Drawable_reset, Foreground (ident a)]
      @ svc_out (fst (cap_foreground a)) @ [Display_mute False]"
    by (simp add: switch_out_def leave_out_def)
  moreover have "launcher s = a \<longrightarrow> navigate EventType_UP s = Inr s'"
    using assms(2) by (simp add: navigate_def)
  ultimately show ?thesis
    using switch_trace [OF assms(2)] switch_mask [OF assms(2)] switch_expiry [OF assms(2)]
    by simp
qed

theorem switch_to_current_app_witness:
  "app on_launcher = Some launcher_app \<and> launcher on_launcher = launcher_app
   \<and> event_mask on_launcher = Val 7
   \<and> (\<exists>s'. navigate EventType_UP on_launcher = Inr s'
        \<and> trace s' = trace on_launcher
              @ [Background 0, Display_mute True, Drawable_reset, Foreground 0, Display_mute False]
        \<and> event_mask s' = Val 5 \<and> tick_expiry s' = Val None)"
proof -
  have a: "app on_launcher = Some launcher_app" by (simp add: on_launcher_def)
  obtain s' where s': "switch launcher_app on_launcher = Inr s'"
    by (simp add: ex_defs op_defs nav_defs)
  have l: "launcher on_launcher = launcher_app" by (simp add: on_launcher_def)
  have m: "event_mask on_launcher = Val 7" by (simp add: on_launcher_def)
  from switch_to_current_app [OF a s'] l
  have "navigate EventType_UP on_launcher = Inr s'"
    and "trace s' = trace on_launcher
              @ [Background 0, Display_mute True, Drawable_reset, Foreground 0, Display_mute False]"
    and "event_mask s' = Val 5" and "tick_expiry s' = Val None"
    by (simp_all add: launcher_app_def)
  with a l m show ?thesis by blast
qed

text \<open>The two ways through \<^verbatim>\<open>sleep\<close>, with the state before the display goes off.\<close>

lemma sleep_cases:
  assumes "sleep s = Inr s'"
  obtains (in_place) s4 where "sleeps_in_place s" "app s4 = app s" "fixed s s4"
      "trace s4 = trace s @ [Backlight_set 0] @ own_sleep_out s"
      "s' = (emit [Display_poweroff] s4)\<lparr>charging := battery_charging s4, sleep_at := Val None\<rparr>"
  | (fallback) s4 d rest r where "\<not> sleeps_in_place s" "applications s = d # rest"
      "cap_sleep d = Some r" "app s4 = Some d" "fixed s s4"
      "trace s4 = trace s @ [Backlight_set 0] @ own_sleep_out s @ switch_out d s
                   @ Sleep (ident d) # svc_out (fst r)"
      "s' = (emit [Display_poweroff] s4)\<lparr>charging := battery_charging s4, sleep_at := Val None\<rparr>"
proof -
  let ?s = "emit [Backlight_set 0] s"
  from assms obtain slept s1 s4 where
    1: "(case (case app ?s of None \<Rightarrow> None | Some a \<Rightarrow> cap_sleep a) of
           None \<Rightarrow> Inr (False, ?s) | Some r \<Rightarrow> call_app cap_sleep Sleep ?s) = Inr (slept, s1)"
    and 2: "(if slept then Inr s1
             else bindE (getitem (applications s1) 0)
                    (\<lambda>d. bindE (switch d s1)
                       (\<lambda>s2. bindE (call_app cap_sleep Sleep s2) (\<lambda>(_, s3). Inr s3)))) = Inr s4"
    and 3: "s' = (emit [Display_poweroff] s4)\<lparr>charging := battery_charging s4, sleep_at := Val None\<rparr>"
    unfolding sleep_def Let_def by (auto simp: bindE_eq_Inr)
  have own: "slept = sleeps_in_place s \<and> app s1 = app s \<and> fixed s s1
      \<and> (app s = None \<longrightarrow> brightness s1 = brightness s)
      \<and> trace s1 = trace s @ [Backlight_set 0] @ own_sleep_out s"
  proof (cases "case app s of None \<Rightarrow> None | Some a \<Rightarrow> cap_sleep a")
    case None
    with 1 have "slept = False" "s1 = ?s" by (simp_all add: emit_def)
    with None show ?thesis
      by (auto simp: sleeps_in_place_def own_sleep_out_def emit_def fixed_def split: option.splits)
  next
    case (Some r)
    then obtain a where a: "app s = Some a" "cap_sleep a = Some r"
      by (auto split: option.splits)
    with 1 have "call_app cap_sleep Sleep ?s = Inr (slept, s1)" by (simp add: emit_def)
    from call_app_Inr [OF this] a have b: "slept = snd r"
      and i: "invoke (Sleep (ident a)) r ?s = Inr s1"
      by (auto simp: emit_def)
    from invoke_frame [OF i] invoke_trace [OF i] a b show ?thesis
      by (auto simp: sleeps_in_place_def own_sleep_out_def emit_def fixed_def)
  qed
  show thesis
  proof (cases slept)
    case True
    with 2 have "s4 = s1" by simp
    with own True 3 show thesis by (intro in_place [of s4]) simp_all
  next
    case False
    with 2 obtain d s2 b where g: "getitem (applications s1) 0 = Inr d"
      and sw: "switch d s1 = Inr s2" and c: "call_app cap_sleep Sleep s2 = Inr (b, s4)"
      by (auto simp: bindE_eq_Inr)
    from own have xs: "applications s1 = applications s" by (simp add: fixed_def)
    from g xs obtain rest where d: "applications s = d # rest"
      by (cases "applications s") (auto simp: getitem_def split: if_splits)
    from switch_frame [OF sw] have a2: "app s2 = Some d" and f2: "fixed s1 s2" by simp_all
    from call_app_Inr [OF c] a2 obtain r where r: "cap_sleep d = Some r"
      and i: "invoke (Sleep (ident d)) r s2 = Inr s4" by auto
    from own have so: "switch_out d s1 = switch_out d s" by (intro switch_out_cong) simp_all
    from invoke_trace [OF i] switch_trace [OF sw] own so
    have t: "trace s4 = trace s @ [Backlight_set 0] @ own_sleep_out s @ switch_out d s
                   @ Sleep (ident d) # svc_out (fst r)" by simp
    from invoke_frame [OF i] a2 have a4: "app s4 = Some d" and f4: "fixed s2 s4" by simp_all
    from own f2 f4 have "fixed s s4" by (auto intro: fixed_trans)
    with False own d r a4 t 3 show thesis by (intro fallback [of d rest r s4]) simp_all
  qed
qed

text \<open>
  Claim C5. When \<^verbatim>\<open>sleep()\<close> returns, its first call set the backlight to 0; if the
  current application has no \<^verbatim>\<open>sleep\<close> method or its \<^verbatim>\<open>sleep()\<close> returned false,
  the manager switched to the application at ring index 0 and called that application's
  \<^verbatim>\<open>sleep()\<close>; the last call powers the display off, \<^verbatim>\<open>charging\<close> holds the
  battery's reading and \<^verbatim>\<open>sleep_at\<close> is \<^verbatim>\<open>None\<close>.
\<close>

theorem sleep_effects:
  assumes "sleep s = Inr s'"
  shows "(if sleeps_in_place s
          then app s' = app s
            \<and> trace s' = trace s @ [Backlight_set 0] @ own_sleep_out s @ [Display_poweroff]
          else \<exists>d rest r. applications s = d # rest \<and> cap_sleep d = Some r \<and> app s' = Some d
            \<and> trace s' = trace s @ [Backlight_set 0] @ own_sleep_out s @ switch_out d s
                 @ Sleep (ident d) # svc_out (fst r) @ [Display_poweroff])
    \<and> charging s' = battery_charging s \<and> sleep_at s' = Val None"
  using assms
proof (cases rule: sleep_cases)
  case (in_place s4)
  then show ?thesis by (simp add: emit_def fixed_def)
next
  case (fallback s4 d rest r)
  then show ?thesis by (cases r) (simp add: emit_def fixed_def)
qed

theorem sleep_effects_witness:
  "\<not> sleeps_in_place on_flashlight \<and>
   (\<exists>s'. sleep on_flashlight = Inr s' \<and> app s' = Some clock_app
      \<and> trace s' = [Backlight_set 0, Background 2, Backlight_set 2, Display_mute True,
           Drawable_reset, Foreground 1, Display_mute False, Sleep 1, Display_poweroff]
      \<and> charging s' = False \<and> sleep_at s' = Val None)"
proof -
  obtain s' where s': "sleep on_flashlight = Inr s'"
    by (simp add: ex_defs op_defs on_flashlight_def sleep_def call_app_def)
  have n: "\<not> sleeps_in_place on_flashlight"
    by (simp add: sleeps_in_place_def on_flashlight_def flashlight_app_def)
  from sleep_effects [OF s'] n s' show ?thesis
    by (auto simp: on_flashlight_def own_sleep_out_def switch_out_def leave_out_def ex_defs)
qed

section \<open>Waking up\<close>

lemma wake_Inr:
  assumes "wake s = Inr s'"
  shows "\<exists>a q b. app s = Some a \<and> cap_wake a = Some (q, b)
    \<and> trace s' = trace s @ [Display_poweron, Wake (ident a)] @ svc_out q
                   @ [Backlight_set (brightness s')]
    \<and> touch_event s' = None
    \<and> sleep_at s' = Val (Some (rtc_uptime s + blank_after s))
    \<and> fixed s s' \<and> app s' = app s \<and> button_value s' = button_value s"
proof -
  from assms obtain b s1 where c: "call_app cap_wake Wake (emit [Display_poweron] s) = Inr (b, s1)"
    and s': "s' = keep_awake (snd (touch_get_event (emit [Backlight_set (brightness s1)] s1)))"
    unfolding wake_def by (auto simp: bindE_eq_Inr)
  from call_app_Inr [OF c] obtain a r where a: "app s = Some a" and r: "cap_wake a = Some r"
    and i: "invoke (Wake (ident a)) r (emit [Display_poweron] s) = Inr s1"
    by (auto simp: emit_def)
  from invoke_frame [OF i] invoke_trace [OF i] a r s' show ?thesis
    by (cases r) (simp add: keep_awake_def touch_get_event_def emit_def fixed_def)
qed





section \<open>The calls of each method, by phase\<close>

lemma emits_same: "trace s' = trace s \<Longrightarrow> emits P s s'"
  by (simp add: emits_def)

lemma emits_mono: "emits P s s' \<Longrightarrow> P \<subseteq> Q \<Longrightarrow> emits Q s s'"
  by (auto simp: emits_def)

lemma emits_trans:
  assumes "emits P s s1" and "emits P s1 s2"
  shows "emits P s s2"
proof -
  from assms obtain xs ys where "trace s1 = trace s @ xs" "dispatch_phase ` set xs \<subseteq> P"
    "trace s2 = trace s1 @ ys" "dispatch_phase ` set ys \<subseteq> P"
    unfolding emits_def by blast
  then have "trace s2 = trace s @ (xs @ ys)" "dispatch_phase ` set (xs @ ys) \<subseteq> P"
    by (simp_all add: image_Un)
  then show ?thesis unfolding emits_def by blast
qed

lemma emits_append:
  "trace s' = trace s @ xs \<Longrightarrow> dispatch_phase ` set xs \<subseteq> P \<Longrightarrow> emits P s s'"
  by (auto simp: emits_def)

lemma phase_svc_out [simp]: "c \<in> set (svc_out cs) \<Longrightarrow> dispatch_phase c = 0"
  by (induction cs rule: svc_out.induct) auto

lemma phase_leave_out [simp]: "c \<in> set (leave_out s) \<Longrightarrow> dispatch_phase c = 0"
  by (auto simp: leave_out_def split: option.splits)

lemma phase_switch_out [simp]: "c \<in> set (switch_out a s) \<Longrightarrow> dispatch_phase c = 0"
  by (auto simp: switch_out_def)

lemma phase_own_sleep_out [simp]: "c \<in> set (own_sleep_out s) \<Longrightarrow> dispatch_phase c = 0"
  by (auto simp: own_sleep_out_def split: option.splits)

lemma invoke_emits:
  "invoke c r s = Inr s' \<Longrightarrow> emits {0, dispatch_phase c} s s'"
  by (drule invoke_trace) (auto intro!: emits_append)

lemma switch_emits: "switch a s = Inr s' \<Longrightarrow> emits {0} s s'"
  by (drule switch_trace) (auto intro!: emits_append)

lemma sleep_emits:
  assumes "sleep s = Inr s'"
  shows "emits {0} s s'"
  using assms
proof (cases rule: sleep_cases)
  case (in_place s4)
  then show ?thesis by (auto intro!: emits_append simp: emit_def)
next
  case (fallback s4 d rest r)
  then show ?thesis by (auto intro!: emits_append simp: emit_def)
qed

lemma navigate_emits:
  assumes "navigate d s = Inr s'"
  shows "emits {0} s s'"
proof -
  consider "d = 3" | "d = 4" | "d = 2" | "d = 1" | "d = 256"
    | "d \<noteq> 3" "d \<noteq> 4" "d \<noteq> 2" "d \<noteq> 1" "d \<noteq> 256" by blast
  then show ?thesis
  proof cases
    case 1
    with assms show ?thesis
      by (auto simp: navigate_def Let_def bindE_eq_Inr dest: switch_emits)
  next
    case 2
    with assms show ?thesis
      by (auto simp: navigate_def Let_def bindE_eq_Inr dest: switch_emits)
  next
    case 3
    with assms show ?thesis
      by (auto simp: navigate_def dest: switch_emits)
  next
    case 4
    with assms obtain x where
      r: "(if differs (app s) x then switch x s else Inr (emit [Vibrator_pulse] s)) = Inr s'"
      by (auto simp: navigate_def Let_def bindE_eq_Inr)
    show ?thesis
    proof (cases "differs (app s) x")
      case True
      with r show ?thesis by (auto dest: switch_emits)
    next
      case False
      with r have "trace s' = trace s @ [Vibrator_pulse]" by (auto simp: emit_def)
      then show ?thesis by (rule emits_append) simp
    qed
  next
    case 5
    with assms show ?thesis
      by (auto simp: navigate_def Let_def bindE_eq_Inr split: if_splits
          dest: switch_emits sleep_emits)
  next
    case 6
    with assms show ?thesis by (simp add: navigate_def emits_same)
  qed
qed

lemma call_app_emits:
  assumes "call_app method c s = Inr (b, s')" and "\<And>i. dispatch_phase (c i) = k"
  shows "emits {0, k} s s'"
proof -
  from call_app_Inr [OF assms(1)] obtain a :: application and r
    where "invoke (c (ident a)) r s = Inr s'" by blast
  from invoke_emits [OF this] assms(2) show ?thesis by simp
qed

lemma handle_button_emits:
  assumes "handle_button state s = Inr s'"
  shows "emits {0, 2} s s'"
proof -
  let ?s = "keep_awake s"
  have t: "trace ?s = trace s" by (simp add: keep_awake_def)
  from assms obtain m go_on s1 where
    1: "(if m AND EventMask_BUTTON \<noteq> 0
         then call_app (\<lambda>a. map_option (\<lambda>f. f EventType_HOME state) (cap_press a))
                (\<lambda>i. Press i EventType_HOME state) ?s
         else Inr (True, ?s)) = Inr (go_on, s1)"
    and 2: "(if \<not> go_on then Inr s1 else if state then navigate EventType_HOME s1 else Inr s1) = Inr s'"
    unfolding handle_button_def Let_def
    by (auto simp: bindE_eq_Inr split: attr.splits)
  from 1 have a: "emits {0, 2} ?s s1"
    by (auto split: if_splits dest!: call_app_emits [where k = 2] simp: emits_same)
  from 2 have "emits {0} s1 s'"
    by (auto split: if_splits dest: navigate_emits simp: emits_same)
  then have "emits {0, 2} s1 s'" by (rule emits_mono) simp
  with a have "emits {0, 2} ?s s'" by (rule emits_trans)
  with t show ?thesis by (simp add: emits_def)
qed

lemma handle_touch_emits:
  assumes "handle_touch ev s = Inr s'"
  shows "emits {0, 3} s s'"
proof -
  let ?s = "keep_awake s"
  have t: "trace ?s = trace s" by (simp add: keep_awake_def)
  have nav: "\<And>d u u'. navigate d u = Inr u' \<Longrightarrow> emits {0, 3} u u'"
    by (drule navigate_emits, erule emits_mono) simp
  from assms obtain m where m: "event_mask ?s = Val m"
    unfolding handle_touch_def Let_def by (auto split: attr.splits)
  have "emits {0, 3} ?s s'"
  proof (cases "fst ev < 5")
    case True
    show ?thesis
    proof (cases "(m AND EventMask_SWIPE_UPDOWN \<noteq> 0 \<and> (fst ev = 1 \<or> fst ev = 2))
                  \<or> (m AND EventMask_SWIPE_LEFTRIGHT \<noteq> 0 \<and> \<not> (fst ev = 1 \<or> fst ev = 2))")
      case sub: True
      with True m assms obtain go_on s1 where
        c: "call_app (\<lambda>a. map_option (\<lambda>f. f ev) (cap_swipe a)) (\<lambda>i. Swipe i ev) ?s = Inr (go_on, s1)"
        and n: "(if go_on then navigate (fst ev) s1 else Inr s1) = Inr s'"
        unfolding handle_touch_def Let_def by (auto simp: bindE_eq_Inr)
      from call_app_emits [OF c, where k = 3] have a: "emits {0, 3} ?s s1" by simp
      from n have "emits {0, 3} s1 s'" by (auto split: if_splits dest: nav simp: emits_same)
      with a show ?thesis by (rule emits_trans)
    next
      case False
      with True m assms have "navigate (fst ev) ?s = Inr s'"
        unfolding handle_touch_def Let_def by auto
      then show ?thesis by (rule nav)
    qed
  next
    case False
    show ?thesis
    proof (cases "fst ev = 5 \<and> m AND EventMask_TOUCH \<noteq> 0")
      case True
      with False m assms obtain b where
        "call_app (\<lambda>a. map_option (\<lambda>f. f ev) (cap_touch a)) (\<lambda>i. Touch i ev) ?s = Inr (b, s')"
        unfolding handle_touch_def Let_def by (auto simp: bindE_eq_Inr)
      from call_app_emits [OF this, where k = 3] show ?thesis by simp
    next
      case nt: False
      with False m assms have "s' = ?s"
        unfolding handle_touch_def Let_def by auto
      then show ?thesis by (simp add: emits_same)
    qed
  qed
  with t show ?thesis by (simp add: emits_def)
qed

lemma poll_button_emits: "poll_button s = Inr s' \<Longrightarrow> emits {0, 2} s s'"
  unfolding poll_button_def get_event_def Let_def
  by (auto split: if_splits dest!: handle_button_emits simp: emits_def)

lemma poll_touch_emits: "poll_touch s = Inr s' \<Longrightarrow> emits {0, 3} s s'"
  unfolding poll_touch_def touch_get_event_def
  by (auto split: option.splits dest!: handle_touch_emits simp: emits_def)

lemma auto_sleep_emits: "auto_sleep s = Inr s' \<Longrightarrow> emits {0} s s'"
  unfolding auto_sleep_def
  by (auto split: attr.splits if_splits dest: sleep_emits simp: emits_same)

lemma deliver_tick_emits:
  assumes "deliver_tick s = Some (Inr s')"
  shows "emits {0, 1} s s'"
proof (cases "\<exists>e' ticks b. call_app (\<lambda>a. map_option (\<lambda>f. f ticks) (cap_tick a))
         (\<lambda>i. Tick i ticks) (s\<lparr>tick_expiry := Val (Some e')\<rparr>) = Inr (b, s')")
  case True
  then obtain e' ticks b where "call_app (\<lambda>a. map_option (\<lambda>f. f ticks) (cap_tick a))
         (\<lambda>i. Tick i ticks) (s\<lparr>tick_expiry := Val (Some e')\<rparr>) = Inr (b, s')" by blast
  from call_app_emits [OF this, where k = 1] show ?thesis by (simp add: emits_def)
next
  case False
  with assms have "s' = s"
    unfolding deliver_tick_def Let_def
    by (auto split: if_splits attr.splits option.splits prod.splits simp: bindE_eq_Inr)
  then show ?thesis by (simp add: emits_same)
qed

section \<open>The poll step\<close>

lemma catch_up_steps:
  assumes "0 < p"
  shows "n = 0 \<or> e + (int n - 1) * p \<le> now \<Longrightarrow> now < e + int n * p \<Longrightarrow>
    catch_up e p now t = Some (e + int n * p, t + int n)"
proof (induction n arbitrary: e t)
  case 0
  then show ?case by (subst catch_up.simps) simp
next
  case (Suc n)
  from assms have "0 \<le> int n * p" by simp
  with Suc.prems(1) have le: "e \<le> now" by simp
  have a: "n = 0 \<or> (e + p) + (int n - 1) * p \<le> now"
    using Suc.prems(1) by (simp add: algebra_simps)
  have b: "now < (e + p) + int n * p"
    using Suc.prems(2) by (simp add: algebra_simps)
  have "catch_up e p now t = catch_up (e + p) p now (t + 1)"
    using le by (subst catch_up.simps) simp
  also have "\<dots> = Some ((e + p) + int n * p, (t + 1) + int n)"
    using a b by (rule Suc.IH)
  finally show ?case by (simp add: algebra_simps)
qed

lemma poll_inputs_emits:
  assumes "poll_inputs s = Inr s'"
  shows "emits {0, 2, 3} s s'"
proof -
  from assms obtain s1 s2 s3 where 1: "poll_button s = Inr s1" and 2: "poll_touch s1 = Inr s2"
    and 3: "auto_sleep s2 = Inr s3" and 4: "s' = emit [Gc_collect] s3"
    unfolding poll_inputs_def by (auto simp: bindE_eq_Inr)
  have "emits {0, 2, 3} s s1" using poll_button_emits [OF 1] by (rule emits_mono) simp
  moreover have "emits {0, 2, 3} s1 s2" using poll_touch_emits [OF 2] by (rule emits_mono) simp
  moreover have "emits {0, 2, 3} s2 s3" using auto_sleep_emits [OF 3] by (rule emits_mono) simp
  moreover have "emits {0, 2, 3} s3 s'" using 4 by (auto simp: emits_def emit_def)
  ultimately show ?thesis by (blast intro: emits_trans)
qed

lemma deliver_tick_due:
  assumes "rtc_update s" and "tick_expiry s = Val (Some e)" and "e \<noteq> 0"
    and "tick_period_ms s = Val p" and "0 < p" and "0 < n"
    and "e + (int n - 1) * p \<le> rtc_uptime_ms s" and "rtc_uptime_ms s < e + int n * p"
    and "app s = Some a" and "cap_tick a = Some f"
  shows "deliver_tick s =
    Some (invoke (Tick (ident a) (int n)) (f (int n)) (s\<lparr>tick_expiry := Val (Some (e + int n * p))\<rparr>))"
proof -
  from assms(5) have "0 \<le> (int n - 1) * p" using assms(6) by simp
  with assms(7) have le: "e \<le> rtc_uptime_ms s" by simp
  have c: "catch_up e p (rtc_uptime_ms s) 0 = Some (e + int n * p, 0 + int n)"
    using assms(5) by (rule catch_up_steps) (use assms(7,8) in simp_all)
  let ?i = "invoke (Tick (ident a) (int n)) (f (int n)) (s\<lparr>tick_expiry := Val (Some (e + int n * p))\<rparr>)"
  have "deliver_tick s = Some (bindE (bindE ?i (\<lambda>s'. Inr (snd (f (int n)), s'))) (\<lambda>(_, s1). Inr s1))"
    using assms(1,2,3,4,9,10) le c
    by (simp add: deliver_tick_def truthy_def call_app_def)
  also have "bindE (bindE ?i (\<lambda>s'. Inr (snd (f (int n)), s'))) (\<lambda>(_, s1). Inr s1) = ?i"
    by (cases ?i) simp_all
  finally show ?thesis .
qed

text \<open>
  Claim C3. Awake, the clock reporting that time advanced, a tick armed with a positive
  period \<open>p\<close> and expiry \<open>e\<close>, and \<open>n \<ge> 1\<close> periods elapsed, counted as the period ends
  \<open>e, e + p, \<dots>, e + (n - 1) p\<close> that the clock has reached (it has not reached
  \<open>e + n p\<close>): the poll step moves the expiry on by exactly \<open>n p\<close>, calls the current
  application's \<^verbatim>\<open>tick(n)\<close>, and goes on to the button and the touch; when the step returns
  that call is the only \<^verbatim>\<open>tick\<close> call it made.
\<close>

theorem tick_catch_up:
  assumes "sleep_at s = Val (Some t)" and "t \<noteq> 0" and "rtc_update s"
    and "tick_expiry s = Val (Some e)" and "e \<noteq> 0"
    and "tick_period_ms s = Val p" and "0 < p" and "0 < n"
    and "e + (int n - 1) * p \<le> rtc_uptime_ms s" and "rtc_uptime_ms s < e + int n * p"
    and "app s = Some a" and "cap_tick a = Some f"
  shows "Manager_tick s =
      Some (bindE (invoke (Tick (ident a) (int n)) (f (int n))
                     (s\<lparr>tick_expiry := Val (Some (e + int n * p))\<rparr>))
              poll_inputs)
    \<and> (\<forall>s'. Manager_tick s = Some (Inr s') \<longrightarrow>
          filter (\<lambda>c. dispatch_phase c = 1) (drop (length (trace s)) (trace s'))
            = [Tick (ident a) (int n)])"
proof -
  let ?i = "invoke (Tick (ident a) (int n)) (f (int n)) (s\<lparr>tick_expiry := Val (Some (e + int n * p))\<rparr>)"
  have d: "deliver_tick s = Some ?i"
    using assms(3-12) by (rule deliver_tick_due)
  with assms(1,2) have m: "Manager_tick s = Some (bindE ?i poll_inputs)"
    by (simp add: Manager_tick_def truthy_def)
  have "filter (\<lambda>c. dispatch_phase c = 1) (drop (length (trace s)) (trace s'))
            = [Tick (ident a) (int n)]" if "Manager_tick s = Some (Inr s')" for s'
  proof -
    from that m obtain s1 where 1: "?i = Inr s1" and 2: "poll_inputs s1 = Inr s'"
      by (auto simp: bindE_eq_Inr)
    from invoke_trace [OF 1]
    have t1: "trace s1 = trace s @ Tick (ident a) (int n) # svc_out (fst (f (int n)))" by simp
    from poll_inputs_emits [OF 2] obtain xs where xs: "trace s' = trace s1 @ xs"
      and p: "dispatch_phase ` set xs \<subseteq> {0, 2, 3}" unfolding emits_def by blast
    from p have "filter (\<lambda>c. dispatch_phase c = 1) xs = []"
      by (auto simp: filter_empty_conv)
    moreover have "filter (\<lambda>c. dispatch_phase c = 1) (svc_out (fst (f (int n)))) = []"
      by (auto simp: filter_empty_conv)
    ultimately show ?thesis using t1 xs by simp
  qed
  with m show ?thesis by blast
qed

lemma sorted_constant: "set xs \<subseteq> {k} \<Longrightarrow> sorted xs"
  by (induction xs) auto

lemma phases_sorted:
  assumes "dispatch_phase ` set A \<subseteq> {0, 1}" and "dispatch_phase ` set B \<subseteq> {0, 2}"
    and "dispatch_phase ` set C \<subseteq> {0, 3}" and "dispatch_phase ` set D \<subseteq> {0}"
  shows "sorted (filter (\<lambda>k. 0 < k) (map dispatch_phase (A @ B @ C @ D)))"
proof -
  let ?f = "\<lambda>xs. filter (\<lambda>k. 0 < k) (map dispatch_phase xs)"
  have a: "x = 1" if "x \<in> set (?f A)" for x using that assms(1) by auto
  have b: "x = 2" if "x \<in> set (?f B)" for x using that assms(2) by auto
  have c: "x = 3" if "x \<in> set (?f C)" for x using that assms(3) by auto
  have d: "set (?f D) \<subseteq> {}" using assms(4) by auto
  then have d': "?f D = []" by simp
  have sa: "sorted (?f A)" by (rule sorted_constant [of _ 1]) (use a in blast)
  have sb: "sorted (?f B)" by (rule sorted_constant [of _ 2]) (use b in blast)
  have sc: "sorted (?f C)" by (rule sorted_constant [of _ 3]) (use c in blast)
  have bc: "\<forall>x\<in>set (?f B). \<forall>y\<in>set (?f C). x \<le> y"
    using b c by fastforce
  have ab: "\<forall>x\<in>set (?f A). \<forall>y\<in>set (?f B @ ?f C). x \<le> y"
  proof (intro ballI)
    fix x y assume "x \<in> set (?f A)" and "y \<in> set (?f B @ ?f C)"
    then have "x = 1" and "y = 2 \<or> y = 3" using a b c by auto
    then show "x \<le> y" by auto
  qed
  have sbc: "sorted (?f B @ ?f C)"
    unfolding sorted_append using sb sc bc by blast
  have "sorted (?f A @ (?f B @ ?f C))"
    by (subst sorted_append) (use sa sbc ab in blast)
  with d' show ?thesis by simp
qed

text \<open>
  Claim C9. In the calls of a poll step that runs awake and returns, every \<^verbatim>\<open>tick\<close> call
  comes before every \<^verbatim>\<open>press\<close> call, and every \<^verbatim>\<open>press\<close> call before every
  \<^verbatim>\<open>swipe\<close> or \<^verbatim>\<open>touch\<close> call: the phases of the dispatches never decrease.
\<close>

theorem poll_dispatch_order:
  assumes "sleep_at s = Val (Some t)" and "t \<noteq> 0" and "Manager_tick s = Some (Inr s')"
  shows "\<exists>xs. trace s' = trace s @ xs
    \<and> sorted (filter (\<lambda>k. 0 < k) (map dispatch_phase xs))"
proof -
  from assms obtain r where r: "deliver_tick s = Some r" and "bindE r poll_inputs = Inr s'"
    by (auto simp: Manager_tick_def truthy_def)
  then obtain s0 where 0: "deliver_tick s = Some (Inr s0)" and pi: "poll_inputs s0 = Inr s'"
    by (auto simp: bindE_eq_Inr)
  from pi obtain s1 s2 s3 where 1: "poll_button s0 = Inr s1" and 2: "poll_touch s1 = Inr s2"
    and 3: "auto_sleep s2 = Inr s3" and 4: "s' = emit [Gc_collect] s3"
    unfolding poll_inputs_def by (auto simp: bindE_eq_Inr)
  from deliver_tick_emits [OF 0] obtain A where A: "trace s0 = trace s @ A"
    "dispatch_phase ` set A \<subseteq> {0, 1}" unfolding emits_def by blast
  from poll_button_emits [OF 1] obtain B where B: "trace s1 = trace s0 @ B"
    "dispatch_phase ` set B \<subseteq> {0, 2}" unfolding emits_def by blast
  from poll_touch_emits [OF 2] obtain C where C: "trace s2 = trace s1 @ C"
    "dispatch_phase ` set C \<subseteq> {0, 3}" unfolding emits_def by blast
  from auto_sleep_emits [OF 3] obtain D where D: "trace s3 = trace s2 @ D"
    "dispatch_phase ` set D \<subseteq> {0}" unfolding emits_def by blast
  have "dispatch_phase ` set (D @ [Gc_collect]) \<subseteq> {0}" using D(2) by simp
  from phases_sorted [OF A(2) B(2) C(2) this]
  have "sorted (filter (\<lambda>k. 0 < k) (map dispatch_phase (A @ B @ C @ D @ [Gc_collect])))" .
  moreover have "trace s' = trace s @ A @ B @ C @ D @ [Gc_collect]"
    using A(1) B(1) C(1) D(1) 4 by (simp add: emit_def)
  ultimately show ?thesis by blast
qed

lemmas poll_defs = Manager_tick_def truthy_def poll_inputs_def poll_button_def poll_touch_def
  auto_sleep_def get_event_def touch_get_event_def handle_button_def handle_touch_def
  keep_awake_def call_app_def

lemma poll_on_test:
  "\<exists>s'. Manager_tick on_test = Some (Inr s')
     \<and> trace s' = [Tick 3 3, Press 3 256 True, Touch 3 (5, 10, 20), Gc_collect]
     \<and> tick_expiry s' = Val (Some 4000)"
proof -
  have "deliver_tick on_test =
    Some (invoke (Tick (ident test_app) (int 3)) (([], False))
            (on_test\<lparr>tick_expiry := Val (Some (1000 + int 3 * 1000))\<rparr>))"
    by (rule deliver_tick_due [where f = "\<lambda>n. ([], False)"])
       (simp_all add: on_test_def test_app_def)
  then show ?thesis
    by (simp add: poll_defs on_test_def ex_defs op_defs)
qed

theorem tick_catch_up_witness:
  "sleep_at on_test = Val (Some 90) \<and> rtc_update on_test
   \<and> tick_expiry on_test = Val (Some 1000) \<and> tick_period_ms on_test = Val 1000
   \<and> rtc_uptime_ms on_test = 3500
   \<and> (\<exists>s'. Manager_tick on_test = Some (Inr s') \<and> tick_expiry s' = Val (Some 4000)
        \<and> filter (\<lambda>c. dispatch_phase c = 1) (drop (length (trace on_test)) (trace s'))
            = [Tick 3 3])"
proof -
  have h: "sleep_at on_test = Val (Some 90)" "(90::int) \<noteq> 0" "rtc_update on_test"
    "tick_expiry on_test = Val (Some 1000)" "(1000::int) \<noteq> 0"
    "tick_period_ms on_test = Val 1000" "(0::int) < 1000" "(0::nat) < 3"
    "1000 + (int 3 - 1) * 1000 \<le> rtc_uptime_ms on_test"
    "rtc_uptime_ms on_test < 1000 + int 3 * 1000"
    "app on_test = Some test_app" "cap_tick test_app = Some (\<lambda>n. ([], False))"
    by (simp_all add: on_test_def test_app_def)
  have u: "rtc_uptime_ms on_test = 3500" by (simp add: on_test_def)
  from poll_on_test obtain s' where s': "Manager_tick on_test = Some (Inr s')"
    and e: "tick_expiry s' = Val (Some 4000)" by blast
  from tick_catch_up [OF h] s'
  have "filter (\<lambda>c. dispatch_phase c = 1) (drop (length (trace on_test)) (trace s'))
            = [Tick 3 3]"
    by (simp add: test_app_def)
  with h u s' e show ?thesis by blast
qed

theorem poll_dispatch_order_witness:
  "sleep_at on_test = Val (Some 90)
   \<and> (\<exists>s'. Manager_tick on_test = Some (Inr s')
        \<and> trace s' = [Tick 3 3, Press 3 256 True, Touch 3 (5, 10, 20), Gc_collect]
        \<and> (\<exists>xs. trace s' = trace on_test @ xs
              \<and> sorted (filter (\<lambda>k. 0 < k) (map dispatch_phase xs))))"
proof -
  have h: "sleep_at on_test = Val (Some 90)" "(90::int) \<noteq> 0"
    by (simp_all add: on_test_def)
  from poll_on_test obtain s' where s': "Manager_tick on_test = Some (Inr s')"
    and t: "trace s' = [Tick 3 3, Press 3 256 True, Touch 3 (5, 10, 20), Gc_collect]" by blast
  from poll_dispatch_order [OF h s'] h s' t show ?thesis by blast
qed

section \<open>Missing methods\<close>



















section \<open>The power state\<close>

lemma timer_ok_frame:
  "timer_ok s \<Longrightarrow> fixed s s' \<Longrightarrow> sleep_at s' = sleep_at s \<Longrightarrow> timer_ok s'"
  by (simp add: timer_ok_def fixed_def)

lemma timer_ok_set:
  "timer_ok s \<Longrightarrow> fixed s s' \<Longrightarrow> sleep_at s' = Val None \<or> sleep_at s' = Val (Some (rtc_uptime s + blank_after s)) \<Longrightarrow>
     timer_ok s'"
  by (auto simp: timer_ok_def fixed_def)

lemma keep_awake_ok: "timer_ok s \<Longrightarrow> timer_ok (keep_awake s)"
  by (erule timer_ok_set) (simp_all add: keep_awake_def fixed_def)

lemma invoke_ok: "timer_ok s \<Longrightarrow> invoke c r s = Inr s' \<Longrightarrow> timer_ok s'"
  by (drule invoke_frame) (auto elim: timer_ok_frame)

lemma call_app_ok:
  assumes "timer_ok s" and "call_app method c s = Inr (b, s')"
  shows "timer_ok s'"
proof -
  from call_app_Inr [OF assms(2)] obtain a :: application and r
    where "invoke (c (ident a)) r s = Inr s'" by blast
  with assms(1) show ?thesis by (rule invoke_ok)
qed

lemma switch_ok:
  assumes "timer_ok s" and "switch a s = Inr s'"
  shows "timer_ok s'"
proof -
  from switch_frame [OF assms(2)] have f: "fixed s s'" by simp
  from switch_sleep_at [OF assms(2)] assms(1) f show ?thesis
    by (auto simp: timer_ok_def fixed_def split: option.splits)
qed

lemma sleep_ok:
  assumes "timer_ok s" and "sleep s = Inr s'"
  shows "timer_ok s'"
  using assms(2)
proof (cases rule: sleep_cases)
  case (in_place s4)
  with assms(1) show ?thesis by (simp add: timer_ok_def fixed_def emit_def)
next
  case (fallback s4 d rest r)
  with assms(1) show ?thesis by (simp add: timer_ok_def fixed_def emit_def)
qed

lemma wake_ok:
  assumes "timer_ok s" and "wake s = Inr s'"
  shows "timer_ok s'"
proof -
  from wake_Inr [OF assms(2)]
  have "fixed s s'" and "sleep_at s' = Val (Some (rtc_uptime s + blank_after s))" by auto
  with assms(1) show ?thesis by (auto elim: timer_ok_set)
qed

lemma navigate_ok:
  assumes "timer_ok s" and "navigate d s = Inr s'"
  shows "timer_ok s'"
proof -
  have e: "timer_ok (emit cs s)" for cs
    using assms(1) by (simp add: timer_ok_def emit_def)
  from assms(2) have "(\<exists>a. switch a s = Inr s') \<or> sleep s = Inr s' \<or> s' = s
      \<or> s' = emit [Vibrator_pulse] s"
    unfolding navigate_def Let_def
    by (auto simp: bindE_eq_Inr split: if_splits)
  with assms(1) e show ?thesis by (auto dest: switch_ok sleep_ok)
qed

lemma handle_button_ok:
  assumes "timer_ok s" and "handle_button state s = Inr s'"
  shows "timer_ok s'"
proof -
  let ?s = "keep_awake s"
  have k: "timer_ok ?s" using assms(1) by (rule keep_awake_ok)
  from assms(2) obtain m go_on s1 where
    1: "(if m AND EventMask_BUTTON \<noteq> 0
         then call_app (\<lambda>a. map_option (\<lambda>f. f EventType_HOME state) (cap_press a))
                (\<lambda>i. Press i EventType_HOME state) ?s
         else Inr (True, ?s)) = Inr (go_on, s1)"
    and 2: "(if \<not> go_on then Inr s1 else if state then navigate EventType_HOME s1 else Inr s1) = Inr s'"
    unfolding handle_button_def Let_def
    by (auto simp: bindE_eq_Inr split: attr.splits)
  from 1 k have "timer_ok s1" by (auto split: if_splits dest: call_app_ok)
  with 2 show ?thesis by (auto split: if_splits dest: navigate_ok)
qed

lemma handle_touch_ok:
  assumes "timer_ok s" and "handle_touch ev s = Inr s'"
  shows "timer_ok s'"
proof -
  let ?s = "keep_awake s"
  have k: "timer_ok ?s" using assms(1) by (rule keep_awake_ok)
  from assms(2) have "navigate (fst ev) ?s = Inr s' \<or> s' = ?s
    \<or> (\<exists>b s1. call_app (\<lambda>a. map_option (\<lambda>f. f ev) (cap_swipe a)) (\<lambda>i. Swipe i ev) ?s = Inr (b, s1)
          \<and> (navigate (fst ev) s1 = Inr s' \<or> s' = s1))
    \<or> (\<exists>b. call_app (\<lambda>a. map_option (\<lambda>f. f ev) (cap_touch a)) (\<lambda>i. Touch i ev) ?s = Inr (b, s'))"
    unfolding handle_touch_def Let_def
    by (auto simp: bindE_eq_Inr split: attr.splits if_splits)
  with k show ?thesis by (auto dest: navigate_ok call_app_ok)
qed

lemma poll_button_ok: "timer_ok s \<Longrightarrow> poll_button s = Inr s' \<Longrightarrow> timer_ok s'"
  unfolding poll_button_def get_event_def Let_def
  by (auto split: if_splits dest!: handle_button_ok [rotated] simp: timer_ok_def)

lemma poll_touch_ok: "timer_ok s \<Longrightarrow> poll_touch s = Inr s' \<Longrightarrow> timer_ok s'"
  unfolding poll_touch_def touch_get_event_def
  by (auto split: option.splits dest!: handle_touch_ok [rotated] simp: timer_ok_def)

lemma auto_sleep_ok: "timer_ok s \<Longrightarrow> auto_sleep s = Inr s' \<Longrightarrow> timer_ok s'"
  unfolding auto_sleep_def
  by (auto split: attr.splits if_splits dest: sleep_ok)

lemma deliver_tick_ok:
  assumes "timer_ok s" and "deliver_tick s = Some (Inr s')"
  shows "timer_ok s'"
proof (cases "\<exists>e' ticks b. call_app (\<lambda>a. map_option (\<lambda>f. f ticks) (cap_tick a))
         (\<lambda>i. Tick i ticks) (s\<lparr>tick_expiry := Val (Some e')\<rparr>) = Inr (b, s')")
  case True
  then obtain e' ticks b where c: "call_app (\<lambda>a. map_option (\<lambda>f. f ticks) (cap_tick a))
         (\<lambda>i. Tick i ticks) (s\<lparr>tick_expiry := Val (Some e')\<rparr>) = Inr (b, s')" by blast
  have "timer_ok (s\<lparr>tick_expiry := Val (Some e')\<rparr>)"
    using assms(1) by (simp add: timer_ok_def)
  then show ?thesis using c by (rule call_app_ok)
next
  case False
  with assms(2) have "s' = s"
    unfolding deliver_tick_def Let_def
    by (auto split: if_splits attr.splits option.splits prod.splits simp: bindE_eq_Inr)
  with assms(1) show ?thesis by simp
qed

lemma poll_inputs_ok:
  assumes "timer_ok s" and "poll_inputs s = Inr s'"
  shows "timer_ok s'"
proof -
  from assms(2) obtain s1 s2 s3 where 1: "poll_button s = Inr s1" and 2: "poll_touch s1 = Inr s2"
    and 3: "auto_sleep s2 = Inr s3" and 4: "s' = emit [Gc_collect] s3"
    unfolding poll_inputs_def by (auto simp: bindE_eq_Inr)
  from assms(1) 1 have "timer_ok s1" by (rule poll_button_ok)
  then have "timer_ok s2" using 2 by (rule poll_touch_ok)
  then have "timer_ok s3" using 3 by (rule auto_sleep_ok)
  with 4 show ?thesis by (simp add: timer_ok_def emit_def)
qed

lemma Manager_tick_ok:
  assumes "timer_ok s" and "Manager_tick s = Some (Inr s')"
  shows "timer_ok s'"
proof -
  from assms(2) consider
    (awake) s0 where "deliver_tick s = Some (Inr s0)" "poll_inputs s0 = Inr s'"
    | (asleep) "poll_asleep s = Inr s'"
    unfolding Manager_tick_def
    by (auto split: attr.splits if_splits simp: bindE_eq_Inr)
  then show ?thesis
  proof cases
    case awake
    from assms(1) awake(1) have "timer_ok s0" by (rule deliver_tick_ok)
    then show ?thesis using awake(2) by (rule poll_inputs_ok)
  next
    case asleep
    have "timer_ok (s\<lparr>button_value := v\<rparr>)" for v
      using assms(1) by (simp add: timer_ok_def)
    with asleep assms(1) show ?thesis
      unfolding poll_asleep_def get_event_def Let_def
      by (auto split: if_splits dest: wake_ok)
  qed
qed

lemma run_start_ok:
  assumes "0 \<le> r_uptime r" and "run_start (Manager_init l c f t r) = Inr s"
  shows "timer_ok s"
proof -
  let ?i = "Manager_init l c f t r"
  have i: "app ?i = None" "blank_after ?i = 15" "rtc_uptime ?i = r_uptime r"
    by (simp_all add: Manager_init_def register_def)
  with assms(2) obtain a where sw: "switch a ?i = Inr s"
    by (auto simp: run_start_def bindE_eq_Inr)
  from switch_frame [OF sw] switch_sleep_at [OF sw] i assms(1) show ?thesis
    by (simp add: timer_ok_def fixed_def)
qed

lemma reachable_timer_ok: "reachable s \<Longrightarrow> timer_ok s"
proof (induction rule: reachable.induct)
  case (starts r l c f t s)
  then show ?case by (rule run_start_ok)
next
  case (senses s r)
  then show ?case by (simp add: timer_ok_def sense_def)
next
  case (switches s a s')
  then show ?case by (auto dest: switch_ok)
next
  case (navigates s d s')
  then show ?case by (auto dest: navigate_ok)
next
  case (sleeps s s')
  then show ?case by (auto dest: sleep_ok)
next
  case (wakes s s')
  then show ?case by (auto dest: wake_ok)
next
  case (keeps_awake s)
  then show ?case by (auto dest: keep_awake_ok)
next
  case (polls s s')
  then show ?case by (auto dest: Manager_tick_ok)
next
  case (requests_event s m s')
  then show ?case by (auto simp: request_event_def timer_ok_def split: attr.splits)
next
  case (requests_tick s p s')
  then show ?case by (auto simp: request_tick_def timer_ok_def split: option.splits)
next
  case (sets_brightness s v)
  then show ?case by (simp add: set_brightness_def emit_def timer_ok_def)
qed

text \<open>
  Claim C2. In every reachable state the power state exists and is AWAKE or ASLEEP, and it
  is AWAKE exactly when \<^verbatim>\<open>sleep_at\<close> holds a time and ASLEEP exactly when \<^verbatim>\<open>sleep_at\<close> is
  \<^verbatim>\<open>None\<close>: the truth test of line 269 never meets a \<^verbatim>\<open>sleep_at\<close> of 0. The reachable
  states are closed under \<^verbatim>\<open>switch\<close>, \<^verbatim>\<open>navigate\<close>, \<^verbatim>\<open>sleep\<close>, \<^verbatim>\<open>wake\<close>,
  \<^verbatim>\<open>keep_awake\<close> and the poll step, so each of them keeps this.
\<close>

theorem power_state_by_sleep_at:
  assumes "reachable s"
  shows "(power_state s = Some AWAKE \<or> power_state s = Some ASLEEP)
    \<and> (power_state s = Some AWAKE \<longleftrightarrow> (\<exists>t. sleep_at s = Val (Some t)))
    \<and> (power_state s = Some ASLEEP \<longleftrightarrow> sleep_at s = Val None)"
  using reachable_timer_ok [OF assms]
  by (auto simp: timer_ok_def power_state_def truthy_def)

theorem power_state_by_sleep_at_witness:
  "reachable on_clock \<and> power_state on_clock = Some AWAKE \<and> sleep_at on_clock = Val (Some 90)"
proof -
  have "reachable on_clock"
  proof (rule reachable.starts)
    show "0 \<le> r_uptime quiet" by (simp add: quiet_def)
    show "run_start (Manager_init launcher_app clock_app flashlight_app test_app quiet) = Inr on_clock"
      using run_start_fresh by (simp add: fresh_def)
  qed
  from power_state_by_sleep_at [OF this] this show ?thesis
    by (simp add: on_clock_def)
qed

end
